theory Spec2Isabelle
  imports Main "HOL-Library.Sublist" "HOL-Library.AList"
begin

section \<open>Paths\<close>

text \<open>
  A path is the list of its components, read from the filesystem root: \<open>/a/b\<close> is
  \<open>[''a'', ''b'']\<close>.  The components \<open>''.''\<close> and \<open>''..''\<close> may occur in a path that was
  built by \<open>os.path.join\<close>; \<open>os.path.abspath\<close> removes them.
\<close>

type_synonym path = "string list"

text \<open>
  \<open>posixpath.normpath\<close> on an absolute path: empty and \<open>.\<close> components are skipped,
  \<open>..\<close> removes the component before it and is dropped at the root.
\<close>

fun normpath_aux :: "path \<Rightarrow> path \<Rightarrow> path" where
  "normpath_aux acc [] = acc"
| "normpath_aux acc (c # cs) =
     (if c = [] \<or> c = ''.'' then normpath_aux acc cs
      else if c = ''..'' then normpath_aux (butlast acc) cs
      else normpath_aux (acc @ [c]) cs)"

definition abspath :: "path \<Rightarrow> path" where
  "abspath p = normpath_aux [] p"

text \<open>\<open>os.path.commonprefix\<close> of two component lists.\<close>

fun commonprefix :: "path \<Rightarrow> path \<Rightarrow> path" where
  "commonprefix (x # xs) (y # ys) = (if x = y then x # commonprefix xs ys else [])"
| "commonprefix _ _ = []"

text \<open>
  \<open>posixpath.relpath(path, start)\<close>:
  \<^verbatim>\<open>
    start_list = [x for x in abspath(start).split(sep) if x]
    path_list = [x for x in abspath(path).split(sep) if x]
    i = len(commonprefix([start_list, path_list]))
    rel_list = [pardir] * (len(start_list)-i) + path_list[i:]
    if not rel_list: return curdir
    return join(*rel_list)
  \<close>
\<close>

definition relpath :: "path \<Rightarrow> path \<Rightarrow> path" where
  "relpath p start =
     (let start_list = abspath start;
          path_list = abspath p;
          i = length (commonprefix start_list path_list);
          rel_list = replicate (length start_list - i) ''..'' @ drop i path_list
      in if rel_list = [] then [''.''] else rel_list)"

text \<open>\<open>os.path.join(a, b)\<close> for a relative \<open>b\<close>, which is all the program joins.\<close>

definition join :: "path \<Rightarrow> path \<Rightarrow> path" where
  "join a b = a @ b"

text \<open>
  The path mapping of \<open>on_any_event\<close> (lines 53-54 and 84):
  \<^verbatim>\<open>
    relative_path = os.path.relpath(event.src_path, self.src_path)
    dest_path = os.path.join(self.dest_path, relative_path)
  \<close>
\<close>

definition path_map :: "path \<Rightarrow> path \<Rightarrow> path \<Rightarrow> path" where
  "path_map p from_root to_root = join to_root (relpath p from_root)"

text \<open>A path as \<open>abspath\<close> returns it: no empty, \<open>.\<close> or \<open>..\<close> component.\<close>

definition normalised :: "path \<Rightarrow> bool" where
  "normalised p = list_all (\<lambda>c. c \<noteq> [] \<and> c \<noteq> ''.'' \<and> c \<noteq> ''..'') p"


section \<open>The filesystem\<close>

text \<open>
  The filesystem is a tree.  A regular file carries its content and its modification
  time (what \<open>os.path.getmtime\<close> reads and \<open>shutil.copy2\<close> copies); a directory carries
  its modification time and its entries in the order \<open>os.scandir\<close> lists them.
  Modification times are integers, a count of clock ticks; the program only compares
  and copies them.  Symbolic links, permissions and special files are not part of the
  model.
\<close>

datatype node =
    File (content: string) (mtime: int)
  | Dir (mtime: int) (entries: "(string \<times> node) list")

text \<open>The subclasses of \<open>OSError\<close> that the calls of the program raise; \<open>OSError\<close>
  itself stands for the remaining ones (\<open>EINVAL\<close>, \<open>ENOTEMPTY\<close>, \<open>EBUSY\<close>), and
  \<open>ShutilError\<close> for \<open>shutil.Error\<close>.\<close>

datatype error =
    FileNotFoundError
  | NotADirectoryError
  | IsADirectoryError
  | FileExistsError
  | SameFileError
  | ShutilError
  | OSError

text \<open>A call returns normally with the new state, or raises and leaves the state
  it had reached.\<close>

datatype 's outcome = Ok 's | Raise error 's

fun state_of :: "'s outcome \<Rightarrow> 's" where
  "state_of (Ok s) = s"
| "state_of (Raise e s) = s"


fun is_Dir :: "node \<Rightarrow> bool" where
  "is_Dir (Dir t es) = True"
| "is_Dir (File c m) = False"

text \<open>The node at a path without \<open>.\<close> and \<open>..\<close> components.\<close>

fun get :: "node \<Rightarrow> path \<Rightarrow> node option" where
  "get n [] = Some n"
| "get n (x # xs) =
     (case n of
        File c m \<Rightarrow> None
      | Dir t es \<Rightarrow> (case map_of es x of None \<Rightarrow> None | Some n' \<Rightarrow> get n' xs))"

text \<open>
  Path resolution as the kernel does it, component by component: every component is
  looked up in a directory (\<open>ENOENT\<close> when that is missing, \<open>ENOTDIR\<close> when it is a
  file), \<open>.\<close> stays there, \<open>..\<close> goes to the parent (the root is its own parent).
  The result is the path without \<open>.\<close> and \<open>..\<close>; its last component need not exist.
\<close>

fun resolve :: "node \<Rightarrow> path \<Rightarrow> path \<Rightarrow> error + path" where
  "resolve fs acc [] = Inr acc"
| "resolve fs acc (c # cs) =
     (case get fs acc of
        None \<Rightarrow> Inl FileNotFoundError
      | Some (File _ _) \<Rightarrow> Inl NotADirectoryError
      | Some (Dir _ _) \<Rightarrow>
          (if c = [] \<or> c = ''.'' then resolve fs acc cs
           else if c = ''..'' then resolve fs (butlast acc) cs
           else resolve fs (acc @ [c]) cs))"

definition stat :: "node \<Rightarrow> path \<Rightarrow> error + node" where
  "stat fs p =
     (case resolve fs [] p of
        Inl e \<Rightarrow> Inl e
      | Inr q \<Rightarrow> (case get fs q of None \<Rightarrow> Inl FileNotFoundError | Some n \<Rightarrow> Inr n))"

text \<open>\<open>os.path.exists\<close>, \<open>os.path.isdir\<close>: False on any error of \<open>os.stat\<close>.\<close>

definition path_exists :: "node \<Rightarrow> path \<Rightarrow> bool" where
  "path_exists fs p = (case stat fs p of Inl e \<Rightarrow> False | Inr n \<Rightarrow> True)"

definition isdir :: "node \<Rightarrow> path \<Rightarrow> bool" where
  "isdir fs p = (case stat fs p of Inr (Dir t es) \<Rightarrow> True | _ \<Rightarrow> False)"

text \<open>\<open>os.path.getmtime\<close> raises what \<open>os.stat\<close> raises.\<close>

definition getmtime :: "node \<Rightarrow> path \<Rightarrow> error + int" where
  "getmtime fs p = (case stat fs p of Inl e \<Rightarrow> Inl e | Inr n \<Rightarrow> Inr (mtime n))"

text \<open>
  Writing the entry at a resolved path whose parent is a directory.  A new entry is
  appended to the parent and sets the parent's modification time to the clock \<open>now\<close>;
  replacing an entry leaves the parent as it is.
\<close>

fun put :: "int \<Rightarrow> node \<Rightarrow> path \<Rightarrow> node \<Rightarrow> node" where
  "put now n [] v = v"
| "put now n [x] v =
     (case n of
        File c m \<Rightarrow> File c m
      | Dir t es \<Rightarrow> Dir (if map_of es x = None then now else t) (AList.update x v es))"
| "put now n (x # y # ys) v =
     (case n of
        File c m \<Rightarrow> File c m
      | Dir t es \<Rightarrow>
          (case map_of es x of
             None \<Rightarrow> Dir t es
           | Some n' \<Rightarrow> Dir t (AList.update x (put now n' (y # ys) v) es)))"

text \<open>Removing the entry at a resolved path, with everything below it.\<close>

fun del :: "int \<Rightarrow> node \<Rightarrow> path \<Rightarrow> node" where
  "del now n [] = n"
| "del now n [x] =
     (case n of
        File c m \<Rightarrow> File c m
      | Dir t es \<Rightarrow> (if map_of es x = None then Dir t es else Dir now (AList.delete x es)))"
| "del now n (x # y # ys) =
     (case n of
        File c m \<Rightarrow> File c m
      | Dir t es \<Rightarrow>
          (case map_of es x of
             None \<Rightarrow> Dir t es
           | Some n' \<Rightarrow> Dir t (AList.update x (del now n' (y # ys)) es)))"


section \<open>The calls of \<open>os\<close> and \<open>shutil\<close> that the program makes\<close>

text \<open>The clock \<open>now\<close> is the modification time a directory gets when an entry is
  added to it or removed from it.\<close>

definition mkdir :: "int \<Rightarrow> node \<Rightarrow> path \<Rightarrow> node outcome" where
  "mkdir now fs p =
     (case resolve fs [] p of
        Inl e \<Rightarrow> Raise e fs
      | Inr q \<Rightarrow>
          (if get fs q \<noteq> None then Raise FileExistsError fs
           else Ok (put now fs q (Dir now []))))"

text \<open>
  The last step of \<open>os.makedirs\<close>:
  \<^verbatim>\<open>
    try: mkdir(name, mode)
    except OSError:
        if not exist_ok or not path.isdir(name): raise
  \<close>
\<close>

definition mkdir_tail :: "int \<Rightarrow> bool \<Rightarrow> node \<Rightarrow> path \<Rightarrow> node outcome" where
  "mkdir_tail now exist_ok fs name =
     (case mkdir now fs name of
        Ok fs' \<Rightarrow> Ok fs'
      | Raise e fs' \<Rightarrow> (if \<not> exist_ok \<or> \<not> isdir fs' name then Raise e fs' else Ok fs'))"

text \<open>
  \<open>os.makedirs(name, exist_ok)\<close>, on the reversed path so that \<open>head, tail = split(name)\<close>
  is a pattern:
  \<^verbatim>\<open>
    if head and tail and not path.exists(head):
        try: makedirs(head, exist_ok=exist_ok)
        except FileExistsError: pass
        if tail == curdir: return
    (mkdir as above)
  \<close>
\<close>

fun makedirs_rev :: "int \<Rightarrow> bool \<Rightarrow> node \<Rightarrow> path \<Rightarrow> node outcome" where
  "makedirs_rev now exist_ok fs [] = mkdir_tail now exist_ok fs []"
| "makedirs_rev now exist_ok fs (tail # rhead) =
     (if \<not> path_exists fs (rev rhead) then
        (case makedirs_rev now exist_ok fs rhead of
           Raise e fs' \<Rightarrow>
             (if e = FileExistsError then
                (if tail = ''.'' then Ok fs'
                 else mkdir_tail now exist_ok fs' (rev (tail # rhead)))
              else Raise e fs')
         | Ok fs' \<Rightarrow>
             (if tail = ''.'' then Ok fs'
              else mkdir_tail now exist_ok fs' (rev (tail # rhead))))
      else mkdir_tail now exist_ok fs (rev (tail # rhead)))"

definition makedirs :: "int \<Rightarrow> bool \<Rightarrow> node \<Rightarrow> path \<Rightarrow> node outcome" where
  "makedirs now exist_ok fs name = makedirs_rev now exist_ok fs (rev name)"

definition basename :: "path \<Rightarrow> path" where
  "basename p = (if p = [] then [] else [last p])"

text \<open>\<open>os.path.samefile\<close> inside \<open>shutil._samefile\<close>: False when a \<open>stat\<close> fails.\<close>

definition samefile :: "node \<Rightarrow> path \<Rightarrow> path \<Rightarrow> bool" where
  "samefile fs a b =
     (case resolve fs [] a of
        Inl e \<Rightarrow> False
      | Inr qa \<Rightarrow>
          (case resolve fs [] b of
             Inl e \<Rightarrow> False
           | Inr qb \<Rightarrow> qa = qb \<and> get fs qa \<noteq> None))"

text \<open>
  \<open>shutil.copy2(src, dst)\<close>: into \<open>dst/basename(src)\<close> when \<open>dst\<close> is a directory;
  \<open>copyfile\<close> opens \<open>src\<close> for reading, then \<open>dst\<close> for writing (creating or
  truncating it); \<open>copystat\<close> gives \<open>dst\<close> the modification time of \<open>src\<close>.
\<close>

definition copy2 :: "int \<Rightarrow> node \<Rightarrow> path \<Rightarrow> path \<Rightarrow> node outcome" where
  "copy2 now fs src dst =
     (let dst' = (if isdir fs dst then join dst (basename src) else dst) in
      if samefile fs src dst' then Raise SameFileError fs
      else
        (case stat fs src of
           Inl e \<Rightarrow> Raise e fs
         | Inr (Dir t es) \<Rightarrow> Raise IsADirectoryError fs
         | Inr (File c m) \<Rightarrow>
             (case resolve fs [] dst' of
                Inl e \<Rightarrow> Raise e fs
              | Inr q \<Rightarrow>
                  (case get fs q of
                     Some (Dir t es) \<Rightarrow> Raise IsADirectoryError fs
                   | _ \<Rightarrow> Ok (put now fs q (File c m))))))"

text \<open>\<open>os.remove\<close> (and \<open>os.unlink\<close>).\<close>

definition remove :: "int \<Rightarrow> node \<Rightarrow> path \<Rightarrow> node outcome" where
  "remove now fs p =
     (case resolve fs [] p of
        Inl e \<Rightarrow> Raise e fs
      | Inr q \<Rightarrow>
          (case get fs q of
             None \<Rightarrow> Raise FileNotFoundError fs
           | Some (Dir t es) \<Rightarrow> Raise IsADirectoryError fs
           | Some (File c m) \<Rightarrow> Ok (del now fs q)))"

text \<open>Whether the last component of a path names an entry of its parent: \<open>rmdir\<close>
  and \<open>rename\<close> refuse \<open>.\<close>, \<open>..\<close> and the root.\<close>

definition names_entry :: "path \<Rightarrow> bool" where
  "names_entry p = (p \<noteq> [] \<and> last p \<noteq> [] \<and> last p \<noteq> ''.'' \<and> last p \<noteq> ''..'')"

text \<open>\<open>shutil.rmtree\<close>: empties the directory, then \<open>os.rmdir\<close> removes it; the
  latter fails on a path that does not name an entry, after the directory was emptied.\<close>

definition rmtree :: "int \<Rightarrow> node \<Rightarrow> path \<Rightarrow> node outcome" where
  "rmtree now fs p =
     (case resolve fs [] p of
        Inl e \<Rightarrow> Raise e fs
      | Inr q \<Rightarrow>
          (case get fs q of
             None \<Rightarrow> Raise FileNotFoundError fs
           | Some (File c m) \<Rightarrow> Raise NotADirectoryError fs
           | Some (Dir t es) \<Rightarrow>
               (if q = [] \<or> \<not> names_entry p
                then Raise OSError (put now fs q (Dir (if es = [] then t else now) []))
                else Ok (del now fs q))))"

text \<open>\<open>os.rename\<close> as POSIX \<open>rename(2)\<close>.\<close>

definition rename :: "int \<Rightarrow> node \<Rightarrow> path \<Rightarrow> path \<Rightarrow> node outcome" where
  "rename now fs src dst =
     (case resolve fs [] src of
        Inl e \<Rightarrow> Raise e fs
      | Inr s \<Rightarrow>
          (case get fs s of
             None \<Rightarrow> Raise FileNotFoundError fs
           | Some n \<Rightarrow>
               (case resolve fs [] dst of
                  Inl e \<Rightarrow> Raise e fs
                | Inr d \<Rightarrow>
                    (if \<not> names_entry src \<or> \<not> names_entry dst then Raise OSError fs
                     else if s = d then Ok fs
                     else if prefix s d then Raise OSError fs
                     else
                       (case get fs d of
                          None \<Rightarrow> Ok (put now (del now fs s) d n)
                        | Some (File c m) \<Rightarrow>
                            (case n of
                               File c' m' \<Rightarrow> Ok (put now (del now (del now fs d) s) d n)
                             | Dir t' es' \<Rightarrow> Raise NotADirectoryError fs)
                        | Some (Dir t es) \<Rightarrow>
                            (case n of
                               File c' m' \<Rightarrow> Raise IsADirectoryError fs
                             | Dir t' es' \<Rightarrow>
                                 (if es = [] then Ok (put now (del now (del now fs d) s) d n)
                                  else Raise OSError fs)))))))"

text \<open>
  \<open>shutil.copytree(src, dst)\<close> as \<open>shutil.move\<close> calls it, with \<open>dst\<close> outside \<open>src\<close>:
  \<open>os.makedirs(dst)\<close>, then every entry is copied with \<open>copy2\<close> and every directory
  gets its source's modification time, so that the tree at \<open>dst\<close> is the tree at \<open>src\<close>.
\<close>

definition copytree :: "int \<Rightarrow> node \<Rightarrow> path \<Rightarrow> path \<Rightarrow> node outcome" where
  "copytree now fs src dst =
     (case stat fs src of
        Inl e \<Rightarrow> Raise e fs
      | Inr (File c m) \<Rightarrow> Raise NotADirectoryError fs
      | Inr (Dir t es) \<Rightarrow>
          (case makedirs now False fs dst of
             Raise e fs' \<Rightarrow> Raise e fs'
           | Ok fs' \<Rightarrow>
               (case resolve fs' [] dst of
                  Inl e \<Rightarrow> Raise e fs'
                | Inr d \<Rightarrow> Ok (put now fs' d (Dir t es)))))"

text \<open>
  \<open>shutil.move(src, dst)\<close>:
  \<^verbatim>\<open>
    real_dst = dst
    if os.path.isdir(dst):
        if _samefile(src, dst):
            os.rename(src, dst); return
        real_dst = os.path.join(dst, _basename(src))
        if os.path.exists(real_dst): raise Error(...)
    try:
        os.rename(src, real_dst)
    except OSError:
        if os.path.islink(src): ...
        elif os.path.isdir(src):
            if _destinsrc(src, dst): raise Error(...)
            copytree(src, real_dst, copy_function=copy2, symlinks=True)
            rmtree(src)
        else:
            copy2(src, real_dst)
            os.unlink(src)
  \<close>
\<close>

definition move :: "int \<Rightarrow> node \<Rightarrow> path \<Rightarrow> path \<Rightarrow> node outcome" where
  "move now fs src dst =
     (if isdir fs dst \<and> samefile fs src dst then rename now fs src dst
      else
        (let real_dst = (if isdir fs dst then join dst (basename src) else dst) in
         if isdir fs dst \<and> path_exists fs real_dst then Raise ShutilError fs
         else
           (case rename now fs src real_dst of
              Ok fs' \<Rightarrow> Ok fs'
            | Raise e fs0 \<Rightarrow>
                (if isdir fs src then
                   (if prefix (abspath src) (abspath dst) then Raise ShutilError fs
                    else
                      (case copytree now fs src real_dst of
                         Raise e' fs' \<Rightarrow> Raise e' fs'
                       | Ok fs' \<Rightarrow> rmtree now fs' src))
                 else
                   (case copy2 now fs src real_dst of
                      Raise e' fs' \<Rightarrow> Raise e' fs'
                    | Ok fs' \<Rightarrow> remove now fs' src)))))"


section \<open>The event handler\<close>

datatype event_type = Created | Modified | Deleted | Moved | Other

record event =
  event_type :: event_type
  src_path :: path
  dest_path :: path

text \<open>The two attributes of \<open>MyEventHandler\<close>: \<open>self.src_path\<close>, \<open>self.dest_path\<close>.\<close>

record handler =
  self_src_path :: path
  self_dest_path :: path

text \<open>The lines the handler prints.\<close>

datatype message =
    DirectoryCreated path path
  | FileCreated path path
  | FileModified path path
  | DirectoryDeleted path
  | FileDeleted path
  | MovedTo path path
  | ErrorHandlingEvent event_type path error

text \<open>A call on the filesystem followed by a \<open>print\<close>.\<close>

definition printing :: "message \<Rightarrow> node outcome \<Rightarrow> (node \<times> message list) outcome" where
  "printing msg r = (case r of Ok fs' \<Rightarrow> Ok (fs', [msg]) | Raise e fs' \<Rightarrow> Raise e (fs', []))"

text \<open>The body of the \<open>try\<close> of \<open>on_any_event\<close> (lines 53-87).\<close>

definition on_any_event_body ::
  "int \<Rightarrow> handler \<Rightarrow> event \<Rightarrow> node \<Rightarrow> (node \<times> message list) outcome" where
  "on_any_event_body now self ev fs =
     (let relative_path = relpath (src_path ev) (self_src_path self);
          dest = join (self_dest_path self) relative_path
      in case event_type ev of
           Created \<Rightarrow>
             (if isdir fs (src_path ev)
              then printing (DirectoryCreated (src_path ev) dest) (makedirs now True fs dest)
              else printing (FileCreated (src_path ev) dest) (copy2 now fs (src_path ev) dest))
         | Modified \<Rightarrow>
             (if \<not> isdir fs (src_path ev)
              then printing (FileModified (src_path ev) dest) (copy2 now fs (src_path ev) dest)
              else Ok (fs, []))
         | Deleted \<Rightarrow>
             (if isdir fs dest then printing (DirectoryDeleted dest) (rmtree now fs dest)
              else if path_exists fs dest then printing (FileDeleted dest) (remove now fs dest)
              else Ok (fs, []))
         | Moved \<Rightarrow>
             (let new_dest_path =
                    join (self_dest_path self) (relpath (dest_path ev) (self_src_path self))
              in printing (MovedTo (src_path ev) new_dest_path) (move now fs dest new_dest_path))
         | Other \<Rightarrow> Ok (fs, []))"

text \<open>
  \<open>on_any_event\<close>: the body inside
  \<^verbatim>\<open>
    try: ...
    except Exception as e:
        print(f"Error handling event {event.event_type} for {event.src_path}: {e}")
  \<close>
\<close>

definition on_any_event ::
  "int \<Rightarrow> handler \<Rightarrow> event \<Rightarrow> node \<Rightarrow> (node \<times> message list) outcome" where
  "on_any_event now self ev fs =
     (case on_any_event_body now self ev fs of
        Ok s \<Rightarrow> Ok s
      | Raise e (fs', out) \<Rightarrow>
          Ok (fs', out @ [ErrorHandlingEvent (event_type ev) (src_path ev) e]))"

text \<open>A \<open>for\<close> loop whose body may raise: the first exception ends the loop.\<close>

fun each :: "('a \<Rightarrow> 's \<Rightarrow> 's outcome) \<Rightarrow> 'a list \<Rightarrow> 's \<Rightarrow> 's outcome" where
  "each f [] s = Ok s"
| "each f (x # xs) s = (case f x s of Ok s' \<Rightarrow> each f xs s' | Raise e s' \<Rightarrow> Raise e s')"


section \<open>Reconciliation\<close>

text \<open>
  \<open>os.walk(top)\<close>, top-down: for every directory its path and the names of its
  entries that are not directories, then the walks of its subdirectories in listing
  order.  The walk is taken from the filesystem as it is when the loop starts; the
  generator of Python lists each directory when it reaches it, which is the same as long
  as the loop does not write below \<open>top\<close>, that is, when neither root lies inside the
  other.  A \<open>top\<close> that is missing or not a directory gives the empty walk.
\<close>

function walk :: "path \<Rightarrow> node \<Rightarrow> (path \<times> string list) list" where
  "walk dirpath (File c m) = []"
| "walk dirpath (Dir t es) =
     (dirpath, map fst (filter (\<lambda>e. \<not> is_Dir (snd e)) es))
       # concat (map (\<lambda>e. walk (join dirpath [fst e]) (snd e)) (filter (\<lambda>e. is_Dir (snd e)) es))"
  by pat_completeness auto
termination
proof (relation "measure (\<lambda>(p, n). size n)")
  show "wf (measure (\<lambda>(p, n). size n))" by simp
next
  fix dirpath :: path and t :: int and es :: "(string \<times> node) list" and x :: "string \<times> node"
  assume "x \<in> set (filter (\<lambda>e. is_Dir (snd e)) es)"
  then have mem: "x \<in> set es" by simp
  have "size (snd x) < Suc (size_list (size_prod (\<lambda>_. 0) size) es)"
    using mem
  proof (induction es)
    case Nil
    then show ?case by simp
  next
    case (Cons a es)
    then show ?case by (cases a; cases x) auto
  qed
  then show "((join dirpath [fst x], snd x), (dirpath, Dir t es)) \<in> measure (\<lambda>(p, n). size n)"
    by simp
qed

definition os_walk :: "node \<Rightarrow> path \<Rightarrow> (path \<times> string list) list" where
  "os_walk fs top_dir =
     (case stat fs top_dir of Inr (Dir t es) \<Rightarrow> walk top_dir (Dir t es) | _ \<Rightarrow> [])"

text \<open>The calls that write, recorded in the order the pass makes them.\<close>

datatype call = Makedirs path | Copy2 path path

type_synonym sync_state = "node \<times> call list"

text \<open>
  Lines 105-110, one file of one directory:
  \<^verbatim>\<open>
    src_file = os.path.join(src_dir, file)
    dest_file = os.path.join(dest_dir, file)
    if not os.path.exists(dest_file) or os.path.getmtime(src_file) > os.path.getmtime(dest_file):
        shutil.copy2(src_file, dest_file)
  \<close>
\<close>

definition copies :: "node \<Rightarrow> path \<Rightarrow> path \<Rightarrow> error + bool" where
  "copies fs src_file dest_file =
     (if \<not> path_exists fs dest_file then Inr True
      else
        (case getmtime fs src_file of
           Inl e \<Rightarrow> Inl e
         | Inr ms \<Rightarrow>
             (case getmtime fs dest_file of
                Inl e \<Rightarrow> Inl e
              | Inr md \<Rightarrow> Inr (ms > md))))"

definition sync_file :: "int \<Rightarrow> path \<Rightarrow> path \<Rightarrow> string \<Rightarrow> sync_state \<Rightarrow> sync_state outcome" where
  "sync_file now src_dir dest_dir file s =
     (let fs = fst s; log = snd s;
          src_file = join src_dir [file];
          dest_file = join dest_dir [file]
      in case copies fs src_file dest_file of
           Inl e \<Rightarrow> Raise e s
         | Inr False \<Rightarrow> Ok s
         | Inr True \<Rightarrow>
             (case copy2 now fs src_file dest_file of
                Ok fs' \<Rightarrow> Ok (fs', log @ [Copy2 src_file dest_file])
              | Raise e fs' \<Rightarrow> Raise e (fs', log)))"

text \<open>
  Lines 100-110, one directory of the walk:
  \<^verbatim>\<open>
    relative_dir = os.path.relpath(src_dir, src)
    dest_dir = os.path.join(dest, relative_dir)
    if not os.path.exists(dest_dir):
        os.makedirs(dest_dir)
    for file in files: ...
  \<close>
\<close>

definition sync_dir ::
  "int \<Rightarrow> path \<Rightarrow> path \<Rightarrow> path \<times> string list \<Rightarrow> sync_state \<Rightarrow> sync_state outcome" where
  "sync_dir now src dest d s =
     (let fs = fst s; log = snd s;
          src_dir = fst d; files = snd d;
          relative_dir = relpath src_dir src;
          dest_dir = join dest relative_dir
      in if \<not> path_exists fs dest_dir then
           (case makedirs now False fs dest_dir of
              Ok fs' \<Rightarrow> each (sync_file now src_dir dest_dir) files (fs', log @ [Makedirs dest_dir])
            | Raise e fs' \<Rightarrow> Raise e (fs', log))
         else each (sync_file now src_dir dest_dir) files s)"

text \<open>One of the two loops of \<open>sync_folders_with_progress\<close>: everything below \<open>src\<close>
  towards \<open>dest\<close>.\<close>

definition one_way :: "int \<Rightarrow> path \<Rightarrow> path \<Rightarrow> sync_state \<Rightarrow> sync_state outcome" where
  "one_way now src dest s = each (sync_dir now src dest) (os_walk (fst s) src) s"

text \<open>
  \<open>sync_folders_with_progress(src, dest)\<close>: the loop from \<open>src\<close> to \<open>dest\<close> (lines
  99-110), then the same loop from \<open>dest\<close> to \<open>src\<close> (lines 117-128).  The two lists
  \<open>src_files\<close> and \<open>dest_files\<close> only give the progress bar its total.
\<close>

definition sync_folders_with_progress ::
  "int \<Rightarrow> path \<Rightarrow> path \<Rightarrow> node \<Rightarrow> sync_state outcome" where
  "sync_folders_with_progress now src dest fs =
     (case one_way now src dest (fs, []) of
        Raise e s \<Rightarrow> Raise e s
      | Ok s \<Rightarrow> one_way now dest src s)"


section \<open>Observations\<close>

text \<open>What a path shows of its node: a file its content and modification time, a
  directory its modification time.\<close>

datatype shape = F string int | D int

fun shape_of :: "node \<Rightarrow> shape" where
  "shape_of (File c m) = F c m"
| "shape_of (Dir t es) = D t"

definition look :: "node \<Rightarrow> path \<Rightarrow> shape option" where
  "look fs p = map_option shape_of (get fs p)"

subsection \<open>What a call keeps\<close>

text \<open>Every path that leads to a node of \<open>fs\<close> leads to a node of the same kind
  (file or directory) of \<open>fs'\<close>.\<close>

definition keeps :: "node \<Rightarrow> node \<Rightarrow> bool" where
  "keeps fs fs' = (\<forall>r n. get fs r = Some n \<longrightarrow> (\<exists>n'. get fs' r = Some n' \<and> is_Dir n' = is_Dir n))"

definition keeps_state :: "sync_state \<Rightarrow> sync_state \<Rightarrow> bool" where
  "keeps_state s s' = keeps (fst s) (fst s')"

subsection \<open>The scenario of the specification\<close>

text \<open>The scenario of the specification: \<open>/A/notes/todo.txt\<close> is newer than
  \<open>/B/notes/todo.txt\<close>, and \<open>/B/photo.png\<close> has no counterpart.\<close>

definition scenario :: node where
  "scenario =
     Dir 0
       [(''A'', Dir 0 [(''notes'', Dir 0 [(''todo.txt'', File ''new'' 7)])]),
        (''B'', Dir 0 [(''notes'', Dir 0 [(''todo.txt'', File ''old'' 3)]),
                      (''photo.png'', File ''img'' 4)])]"

subsection \<open>Well-formed trees\<close>

text \<open>A tree as a filesystem holds it: the names of a directory are distinct, and
  none is empty, \<open>.\<close> or \<open>..\<close>.\<close>

function wf_node :: "node \<Rightarrow> bool" where
  "wf_node (File c m) = True"
| "wf_node (Dir t es) =
     (distinct (map fst es) \<and> (\<forall>e \<in> set es. normalised [fst e] \<and> wf_node (snd e)))"
  by pat_completeness auto
termination
proof (relation "measure size")
  show "wf (measure size)" by simp
next
  fix t :: int and es :: "(string \<times> node) list" and x :: "string \<times> node"
  assume mem: "x \<in> set es"
  have "size (snd x) < Suc (size_list (size_prod (\<lambda>_. 0) size) es)"
    using mem
  proof (induction es)
    case Nil
    then show ?case by simp
  next
    case (Cons a es)
    then show ?case by (cases a; cases x) auto
  qed
  then show "(snd x, Dir t es) \<in> measure size" by simp
qed

text \<open>The regular file at a path (content and modification time), and whether a path
  is a directory.\<close>

definition file_at :: "node \<Rightarrow> path \<Rightarrow> (string \<times> int) option" where
  "file_at fs p = (case get fs p of Some (File c m) \<Rightarrow> Some (c, m) | _ \<Rightarrow> None)"

definition dir_at :: "node \<Rightarrow> path \<Rightarrow> bool" where
  "dir_at fs p = (case get fs p of Some (Dir t es) \<Rightarrow> True | _ \<Rightarrow> False)"

text \<open>The names \<open>os.walk\<close> reports as \<open>files\<close> for a directory.\<close>

definition filenames :: "(string \<times> node) list \<Rightarrow> string list" where
  "filenames es = map fst (filter (\<lambda>e. \<not> is_Dir (snd e)) es)"

subsection \<open>The state of a pass\<close>

text \<open>Line 108 read as a choice between the file of the walked side (first argument)
  and the file at the same relative path of the other side: the walked side wins when
  the other side has no file or a strictly older one.\<close>

fun newer :: "(string \<times> int) option \<Rightarrow> (string \<times> int) option \<Rightarrow> (string \<times> int) option" where
  "newer None d = d"
| "newer (Some s) None = Some s"
| "newer (Some s) (Some d) = (if snd s > snd d then Some s else Some d)"

text \<open>No relative path is a file below one root and a directory below the other.\<close>

definition compatible :: "node \<Rightarrow> path \<Rightarrow> node \<Rightarrow> path \<Rightarrow> bool" where
  "compatible fs0 src fs dest =
     (\<forall>r. (file_at fs0 (src @ r) \<noteq> None \<longrightarrow> \<not> dir_at fs (dest @ r))
        \<and> (dir_at fs0 (src @ r) \<longrightarrow> file_at fs (dest @ r) = None))"

text \<open>What the reasoning about one pass assumes: two roots as \<open>abspath\<close> returns
  them, neither inside the other, both existing directories of a well-formed tree, and
  no clash of kinds between them.\<close>

definition base :: "path \<Rightarrow> path \<Rightarrow> node \<Rightarrow> bool" where
  "base src dest fs0 =
     (normalised src \<and> normalised dest \<and> \<not> prefix src dest \<and> \<not> prefix dest src
      \<and> wf_node fs0 \<and> dir_at fs0 src \<and> dir_at fs0 dest \<and> compatible fs0 src fs0 dest)"

text \<open>The state of a pass from \<open>src\<close> to \<open>dest\<close> that started in \<open>fs0\<close>, after the
  files at the relative paths \<open>FP\<close> and the directories at \<open>DP\<close> have been handled.\<close>

definition reached :: "path \<Rightarrow> path \<Rightarrow> node \<Rightarrow> path set \<Rightarrow> path set \<Rightarrow> node \<Rightarrow> bool" where
  "reached src dest fs0 FP DP fs =
     (wf_node fs
      \<and> (\<forall>r. file_at fs (dest @ r) =
               (if r \<in> FP then newer (file_at fs0 (src @ r)) (file_at fs0 (dest @ r))
                else file_at fs0 (dest @ r)))
      \<and> (\<forall>r. dir_at fs (dest @ r) = (dir_at fs0 (dest @ r) \<or> (\<exists>d\<in>DP. prefix r d)))
      \<and> (\<forall>q. \<not> prefix dest q \<longrightarrow> \<not> prefix q dest \<longrightarrow> get fs q = get fs0 q))"

text \<open>A relative path where line 108 decides not to copy.\<close>

definition settled :: "node \<Rightarrow> path \<Rightarrow> node \<Rightarrow> path \<Rightarrow> path \<Rightarrow> bool" where
  "settled fs0 src fs dest r =
     (case file_at fs0 (src @ r) of
        None \<Rightarrow> True
      | Some s \<Rightarrow> (case file_at fs (dest @ r) of None \<Rightarrow> False | Some d \<Rightarrow> snd s \<le> snd d))"

text \<open>The relative paths of the directories and files of a walk.\<close>

definition rel_of :: "path \<Rightarrow> path \<times> string list \<Rightarrow> path" where
  "rel_of src e = drop (length src) (fst e)"

definition file_rels :: "path \<Rightarrow> (path \<times> string list) list \<Rightarrow> path set" where
  "file_rels src ds = (\<Union>e\<in>set ds. (\<lambda>f. rel_of src e @ [f]) ` set (snd e))"

definition dir_rels :: "path \<Rightarrow> (path \<times> string list) list \<Rightarrow> path set" where
  "dir_rels src ds = rel_of src ` set ds"

text \<open>Every entry of a walk is a directory of \<open>fs0\<close> below \<open>src\<close> with its file names.\<close>

definition walked :: "path \<Rightarrow> node \<Rightarrow> (path \<times> string list) list \<Rightarrow> bool" where
  "walked src fs0 ds =
     (\<forall>e\<in>set ds. \<exists>rel t es. e = (src @ rel, filenames es) \<and> get fs0 (src @ rel) = Some (Dir t es))"

text \<open>The two trees have the same directories, and the same files with the same
  modification times.\<close>

definition in_sync :: "node \<Rightarrow> path \<Rightarrow> path \<Rightarrow> bool" where
  "in_sync fs src dest =
     ((\<forall>r. dir_at fs (src @ r) = dir_at fs (dest @ r))
      \<and> (\<forall>r. map_option snd (file_at fs (src @ r)) = map_option snd (file_at fs (dest @ r))))"

subsection \<open>Clash-free trees\<close>

text \<open>The executable form of \<open>compatible\<close>: two nodes of the same kind whose common
  entries agree.\<close>

function agree :: "node \<Rightarrow> node \<Rightarrow> bool" where
  "agree (File c m) (File c' m') = True"
| "agree (File c m) (Dir t' es') = False"
| "agree (Dir t es) (File c' m') = False"
| "agree (Dir t es) (Dir t' es') =
     (\<forall>e \<in> set es. case map_of es' (fst e) of None \<Rightarrow> True | Some n' \<Rightarrow> agree (snd e) n')"
  by pat_completeness auto
termination
proof (relation "measure (\<lambda>(a, b). size a)")
  show "wf (measure (\<lambda>(a, b). size a))" by simp
next
  fix t :: int and es :: "(string \<times> node) list" and t' :: int and es' :: "(string \<times> node) list"
    and x :: "string \<times> node" and n' :: node
  assume mem: "x \<in> set es"
  have "size (snd x) < Suc (size_list (size_prod (\<lambda>_. 0) size) es)"
    using mem
  proof (induction es)
    case Nil
    then show ?case by simp
  next
    case (Cons a es)
    then show ?case by (cases a; cases x) auto
  qed
  then show "((snd x, n'), (Dir t es, Dir t' es')) \<in> measure (\<lambda>(a, b). size a)" by simp
qed

definition clash_free :: "node \<Rightarrow> path \<Rightarrow> path \<Rightarrow> bool" where
  "clash_free fs src dest =
     (case get fs src of
        Some (Dir t es) \<Rightarrow>
          (case get fs dest of
             Some (Dir t' es') \<Rightarrow> agree (Dir t es) (Dir t' es')
           | _ \<Rightarrow> False)
      | _ \<Rightarrow> False)"

text \<open>The inputs the theorems about reconciliation speak of, as a check that can be
  run: normalised roots, neither inside the other, both directories of a well-formed
  tree, no relative path a file on one side and a directory on the other.\<close>

definition reconcilable :: "node \<Rightarrow> path \<Rightarrow> path \<Rightarrow> bool" where
  "reconcilable fs src dest =
     (normalised src \<and> normalised dest \<and> \<not> prefix src dest \<and> \<not> prefix dest src
      \<and> wf_node fs \<and> clash_free fs src dest)"

subsection \<open>Further filesystems\<close>

text \<open>Two copies with the same modification time and different contents.\<close>

definition tie :: node where
  "tie = Dir 0 [(''A'', Dir 0 [(''f'', File ''a'' 5)]), (''B'', Dir 0 [(''f'', File ''b'' 5)])]"

text \<open>A directory without entries on the source side.\<close>

definition with_empty_dir :: node where
  "with_empty_dir = Dir 0 [(''A'', Dir 0 [(''empty'', Dir 0 [])]), (''B'', Dir 0 [])]"

text \<open>\<open>/B/d\<close> is a regular file where \<open>/A/d\<close> is a directory.\<close>

definition blocked :: node where
  "blocked =
     Dir 0
       [(''A'', Dir 0 [(''d'', Dir 0 [(''f'', File ''x'' 1)]), (''e'', Dir 0 [(''g'', File ''y'' 1)])]),
        (''B'', Dir 0 [(''d'', File ''blocker'' 1)])]"

subsection \<open>The copy condition\<close>

text \<open>The condition of line 108, when it evaluates without raising.\<close>

definition copy_condition :: "node \<Rightarrow> path \<Rightarrow> path \<Rightarrow> bool" where
  "copy_condition fs src_file dest_file =
     (\<not> path_exists fs dest_file
      \<or> (case getmtime fs src_file of
            Inl e \<Rightarrow> False
          | Inr ms \<Rightarrow> (case getmtime fs dest_file of Inl e \<Rightarrow> False | Inr md \<Rightarrow> ms > md)))"

subsection \<open>The handler and the mirror root\<close>

text \<open>The handler of the program, watching \<open>/A\<close> and mirroring to \<open>/B\<close>.\<close>

definition mirror :: handler where
  "mirror = \<lparr>self_src_path = [''A''], self_dest_path = [''B'']\<rparr>"

text \<open>A path without \<open>..\<close> components.\<close>

definition no_parent :: "path \<Rightarrow> bool" where
  "no_parent x = (''..'' \<notin> set x)"

text \<open>\<open>fs'\<close> differs from \<open>fs\<close> only at the path \<open>M\<close> and below it: every other path
  shows what it showed, and \<open>M\<close> is still a directory.\<close>

definition within :: "path \<Rightarrow> node \<Rightarrow> node \<Rightarrow> bool" where
  "within M fs fs' = ((\<forall>q. \<not> prefix M q \<longrightarrow> look fs' q = look fs q) \<and> dir_at fs' M)"


section \<open>Properties of the path mapping\<close>

lemma normpath_aux_normalised: "normalised p \<Longrightarrow> normpath_aux acc p = acc @ p"
  by (induction p arbitrary: acc) (auto simp: normalised_def)

lemma abspath_normalised: "normalised p \<Longrightarrow> abspath p = p"
  by (simp add: abspath_def normpath_aux_normalised)

lemma normalised_append: "normalised (p @ q) = (normalised p \<and> normalised q)"
  by (simp add: normalised_def)

lemma commonprefix_append: "commonprefix xs (xs @ ys) = xs"
  by (induction xs) auto

lemma commonprefix_length_le: "length (commonprefix xs ys) \<le> length xs"
  by (induction xs ys rule: commonprefix.induct) auto

lemma commonprefix_full: "length (commonprefix xs ys) = length xs \<Longrightarrow> prefix xs ys"
proof (induction xs ys rule: commonprefix.induct)
  case (1 x xs y ys)
  then show ?case by (auto split: if_splits)
qed auto

lemma relpath_below:
  assumes "normalised root" "normalised rel" "rel \<noteq> []"
  shows "relpath (root @ rel) root = rel"
  using assms
  by (simp add: relpath_def abspath_normalised normalised_append commonprefix_append Let_def)

lemma relpath_root:
  assumes "normalised root"
  shows "relpath root root = [''.'']"
  using assms commonprefix_append [of root "[]"]
  by (simp add: relpath_def abspath_normalised Let_def)

lemma normpath_aux_append:
  "normpath_aux acc (p @ q) = normpath_aux (normpath_aux acc p) q"
  by (induction p arbitrary: acc) auto

lemma abspath_dot: "normalised r \<Longrightarrow> abspath (r @ [''.'']) = r"
  by (simp add: abspath_def normpath_aux_append normpath_aux_normalised)

lemma relpath_dot:
  assumes "normalised r"
  shows "relpath (r @ [''.'']) r = [''.'']"
  using assms commonprefix_append [of r "[]"]
  by (simp add: relpath_def abspath_dot abspath_normalised Let_def)

text \<open>
  C8.  For a path \<open>r1 @ rel\<close> below the root \<open>r1\<close> (roots and path as \<open>abspath\<close>
  returns them), mapping it from \<open>r1\<close> to \<open>r2\<close> and the result back from \<open>r2\<close> to \<open>r1\<close>
  gives the path again.  For the root itself (\<open>rel\<close> empty) the result is \<open>r1/.\<close>, which
  \<open>abspath\<close> reads as \<open>r1\<close>.
\<close>

theorem path_map_round_trip:
  assumes "normalised r1" "normalised r2" "normalised rel"
  shows "(rel \<noteq> [] \<longrightarrow> path_map (path_map (r1 @ rel) r1 r2) r2 r1 = r1 @ rel)
         \<and> abspath (path_map (path_map (r1 @ rel) r1 r2) r2 r1) = r1 @ rel"
proof (cases "rel = []")
  case True
  have "path_map (path_map r1 r1 r2) r2 r1 = r1 @ [''.'']"
    using assms(1,2) by (simp add: path_map_def join_def relpath_root relpath_dot)
  then show ?thesis using True assms(1) by (simp add: abspath_dot)
next
  case False
  have "path_map (path_map (r1 @ rel) r1 r2) r2 r1 = r1 @ rel"
    using assms False by (simp add: path_map_def join_def relpath_below)
  then show ?thesis using assms by (simp add: abspath_normalised normalised_append)
qed

theorem path_map_round_trip_witness:
  "path_map (path_map ([''srv'', ''left''] @ [''notes'', ''todo.txt''])
               [''srv'', ''left''] [''srv'', ''right''])
      [''srv'', ''right''] [''srv'', ''left'']
   = [''srv'', ''left''] @ [''notes'', ''todo.txt'']
   \<and> abspath (path_map (path_map ([''srv'', ''left''] @ []) [''srv'', ''left''] [''srv'', ''right''])
      [''srv'', ''right''] [''srv'', ''left''])
   = [''srv'', ''left''] @ []"
  using path_map_round_trip
          [of "[''srv'', ''left'']" "[''srv'', ''right'']" "[''notes'', ''todo.txt'']"]
        path_map_round_trip [of "[''srv'', ''left'']" "[''srv'', ''right'']" "[]"]
  by (simp add: normalised_def)

text \<open>
  C5, as the code has it.  For a path that does not lie below \<open>from_root\<close> the mapping
  raises nothing: it returns \<open>to_root\<close>, then one \<open>..\<close> for every component of
  \<open>from_root\<close> after the common prefix (at least one), then the rest of the path.
\<close>

theorem path_map_outside_root:
  assumes "normalised p" "normalised from_root" "\<not> prefix from_root p"
  shows "path_map p from_root to_root =
           to_root @ replicate (length from_root - length (commonprefix from_root p)) ''..''
             @ drop (length (commonprefix from_root p)) p
         \<and> 0 < length from_root - length (commonprefix from_root p)"
proof -
  have lt: "length (commonprefix from_root p) < length from_root"
    using commonprefix_length_le [of from_root p] commonprefix_full [of from_root p] assms(3)
    by (cases "length (commonprefix from_root p) = length from_root") auto
  then have "replicate (length from_root - length (commonprefix from_root p)) ''..'' \<noteq> []"
    by simp
  then show ?thesis
    using assms(1,2) lt
    by (simp add: path_map_def join_def relpath_def abspath_normalised Let_def)
qed

theorem path_map_outside_root_witness:
  "path_map [''a'', ''x''] [''w''] [''m''] = [''m''] @ replicate 1 ''..'' @ [''a'', ''x'']"
  using path_map_outside_root [of "[''a'', ''x'']" "[''w'']" "[''m'']"]
  by (simp add: normalised_def)

text \<open>The path \<open>/a/x\<close> is not below \<open>/w\<close>, and mapping it from \<open>/w\<close> to \<open>/m\<close> returns
  the path \<open>/m/../a/x\<close>.\<close>

theorem path_map_outside_root_counterexample:
  "\<not> prefix [''w''] [''a'', ''x'']
   \<and> path_map [''a'', ''x''] [''w''] [''m''] = [''m'', ''..'', ''a'', ''x'']"
  by (simp add: path_map_def join_def relpath_def abspath_def Let_def)


section \<open>Lookup, writing and path resolution\<close>

lemma get_append: "get n (a @ b) = (case get n a of None \<Rightarrow> None | Some m \<Rightarrow> get m b)"
  by (induction a arbitrary: n) (auto split: node.splits option.splits)

lemma get_Cons_Some: "get n (x # xs) = Some m \<Longrightarrow> \<exists>t es. n = Dir t es"
  by (cases n) auto

lemma look_put:
  assumes "q \<noteq> []" "get fs (butlast q) = Some (Dir t es)"
  shows "look (put now fs q v) r =
           (if prefix q r then look v (drop (length q) r)
            else if r = butlast q then Some (D (if get fs q = None then now else t))
            else look fs r)"
  using assms
proof (induction now fs q v arbitrary: r rule: put.induct)
  case (1 now n v)
  then show ?case by simp
next
  case (2 now n x v)
  then show ?case
    by (cases r) (auto simp: look_def update_conv' split: option.splits)
next
  case (3 now n x y ys v)
  from "3.prems" obtain t0 es0 n' where n: "n = Dir t0 es0" and x: "map_of es0 x = Some n'"
    and g: "get n' (butlast (y # ys)) = Some (Dir t es)"
    by (cases n) (auto split: option.splits)
  have IH: "\<And>r. look (put now n' (y # ys) v) r =
           (if prefix (y # ys) r then look v (drop (length (y # ys)) r)
            else if r = butlast (y # ys) then Some (D (if get n' (y # ys) = None then now else t))
            else look n' r)"
    using "3.IH" [OF n x _ g] by simp
  show ?case
  proof (cases r)
    case Nil
    then show ?thesis using n x by (simp add: look_def)
  next
    case (Cons z zs)
    show ?thesis
    proof (cases "z = x")
      case True
      have "look (put now n (x # y # ys) v) r = look (put now n' (y # ys) v) zs"
        using n x Cons True by (simp add: look_def update_conv')
      also have "\<dots> = (if prefix (y # ys) zs then look v (drop (length (y # ys)) zs)
            else if zs = butlast (y # ys) then Some (D (if get n' (y # ys) = None then now else t))
            else look n' zs)" by (rule IH)
      finally show ?thesis using n x Cons True by (simp add: look_def)
    next
      case False
      then show ?thesis using n x Cons by (auto simp: look_def update_conv')
    qed
  qed
qed

lemma look_del:
  assumes "q \<noteq> []"
  shows "look (del now fs q) r =
           (if get fs q = None then look fs r
            else if prefix q r then None
            else if r = butlast q then Some (D now)
            else look fs r)"
  using assms
proof (induction now fs q arbitrary: r rule: del.induct)
  case (1 now n)
  then show ?case by simp
next
  case (2 now n x)
  then show ?case
    by (cases r; cases n) (auto simp: look_def delete_conv' split: option.splits)
next
  case (3 now n x y ys)
  show ?case
  proof (cases n)
    case (File c m)
    then show ?thesis by (simp add: look_def)
  next
    case (Dir t0 es0)
    show ?thesis
    proof (cases "map_of es0 x")
      case None
      then show ?thesis using Dir by (simp add: look_def)
    next
      case (Some n')
      have IH: "\<And>r. look (del now n' (y # ys)) r =
           (if get n' (y # ys) = None then look n' r
            else if prefix (y # ys) r then None
            else if r = butlast (y # ys) then Some (D now)
            else look n' r)"
        using "3.IH" [OF Dir Some] by simp
      show ?thesis
      proof (cases r)
        case Nil
        then show ?thesis using Dir Some by (simp add: look_def)
      next
        case (Cons z zs)
        show ?thesis
        proof (cases "z = x")
          case True
          have "look (del now n (x # y # ys)) r = look (del now n' (y # ys)) zs"
            using Dir Some Cons True by (simp add: look_def update_conv')
          then show ?thesis using IH [of zs] Dir Some Cons True by (simp add: look_def)
        next
          case False
          then show ?thesis using Dir Some Cons by (auto simp: look_def update_conv')
        qed
      qed
    qed
  qed
qed

lemma resolve_append:
  "resolve fs acc (p @ q) = (case resolve fs acc p of Inl e \<Rightarrow> Inl e | Inr r \<Rightarrow> resolve fs r q)"
  by (induction p arbitrary: acc) (auto split: option.splits node.splits)

lemma resolve_normalised:
  "normalised p \<Longrightarrow> resolve fs acc p = Inr q \<Longrightarrow> q = acc @ p"
proof (induction p arbitrary: acc)
  case Nil
  then show ?case by simp
next
  case (Cons c cs)
  from Cons.prems have "resolve fs (acc @ [c]) cs = Inr q"
    by (auto simp: normalised_def split: option.splits node.splits)
  moreover have "normalised cs" using Cons.prems by (simp add: normalised_def)
  ultimately have "q = (acc @ [c]) @ cs" using Cons.IH by blast
  then show ?case by simp
qed

lemma resolve_ok:
  "normalised p \<Longrightarrow> p \<noteq> [] \<Longrightarrow> get fs (acc @ butlast p) = Some (Dir t es)
   \<Longrightarrow> resolve fs acc p = Inr (acc @ p)"
proof (induction p arbitrary: acc)
  case Nil
  then show ?case by simp
next
  case (Cons c cs)
  show ?case
  proof (cases cs)
    case Nil
    then show ?thesis using Cons.prems by (simp add: normalised_def)
  next
    case (Cons d ds)
    with Cons.prems obtain m where m: "get fs acc = Some m" "get m (c # butlast cs) = Some (Dir t es)"
      by (auto simp: get_append split: option.splits)
    then obtain t0 es0 where "m = Dir t0 es0" using get_Cons_Some by blast
    moreover have "resolve fs (acc @ [c]) cs = Inr ((acc @ [c]) @ cs)"
      using Cons.IH [of "acc @ [c]"] Cons.prems Cons by (simp add: normalised_def)
    ultimately show ?thesis using m Cons.prems by (simp add: normalised_def)
  qed
qed

lemma get_butlast_Dir:
  assumes "p \<noteq> []" "get fs (acc @ p) = Some n"
  shows "\<exists>t es. get fs (acc @ butlast p) = Some (Dir t es)"
proof -
  have "acc @ p = (acc @ butlast p) @ [last p]" using assms(1) by simp
  then have "get fs ((acc @ butlast p) @ [last p]) = Some n" using assms(2) by simp
  then obtain m where "get fs (acc @ butlast p) = Some m" "get m [last p] = Some n"
    unfolding get_append [of fs "acc @ butlast p"] by (auto split: option.splits)
  then show ?thesis using get_Cons_Some by blast
qed

lemma resolve_exists:
  assumes "normalised p" "get fs (acc @ p) = Some n"
  shows "resolve fs acc p = Inr (acc @ p)"
proof (cases "p = []")
  case True
  then show ?thesis by simp
next
  case False
  then show ?thesis using get_butlast_Dir [OF False assms(2)] resolve_ok assms(1) by blast
qed

lemma stat_normalised:
  assumes "normalised p"
  shows "(stat fs p = Inr n) = (get fs p = Some n)"
proof
  assume "stat fs p = Inr n"
  then show "get fs p = Some n"
    using resolve_normalised [OF assms, of fs "[]"]
    by (auto simp: stat_def split: sum.splits option.splits)
next
  assume "get fs p = Some n"
  then show "stat fs p = Inr n"
    using resolve_exists [OF assms, of fs "[]" n] by (simp add: stat_def)
qed

lemma path_exists_normalised: "normalised p \<Longrightarrow> path_exists fs p = (get fs p \<noteq> None)"
  using stat_normalised [of p fs]
  by (cases "stat fs p") (auto simp: path_exists_def)

lemma isdir_normalised: "normalised p \<Longrightarrow> isdir fs p = (\<exists>t es. get fs p = Some (Dir t es))"
  using stat_normalised [of p fs]
  by (cases "stat fs p") (auto simp: isdir_def split: node.splits)

section \<open>Reconciliation never removes\<close>

lemma keeps_refl: "keeps fs fs"
  by (simp add: keeps_def)

lemma keeps_trans: "keeps fs1 fs2 \<Longrightarrow> keeps fs2 fs3 \<Longrightarrow> keeps fs1 fs3"
  unfolding keeps_def by (metis (no_types))

lemma keeps_Dir: "keeps fs fs' \<Longrightarrow> get fs r = Some (Dir t es) \<Longrightarrow> \<exists>t' es'. get fs' r = Some (Dir t' es')"
  unfolding keeps_def by (metis is_Dir.elims(2) is_Dir.simps(1))

lemma keeps_File: "keeps fs fs' \<Longrightarrow> get fs r = Some (File c m) \<Longrightarrow> \<exists>c' m'. get fs' r = Some (File c' m')"
  unfolding keeps_def by (metis is_Dir.elims(3) is_Dir.simps(2))

lemma keeps_resolve:
  "keeps fs fs' \<Longrightarrow> resolve fs acc p = Inr q \<Longrightarrow> resolve fs' acc p = Inr q"
proof (induction p arbitrary: acc)
  case Nil
  then show ?case by simp
next
  case (Cons c cs)
  from Cons.prems(2) obtain t es where d: "get fs acc = Some (Dir t es)"
    by (auto split: option.splits node.splits)
  then obtain t' es' where d': "get fs' acc = Some (Dir t' es')"
    using keeps_Dir [OF Cons.prems(1)] by blast
  show ?case using Cons.prems(2) Cons.IH [OF Cons.prems(1)] d d'
    by (auto split: if_splits)
qed

lemma keeps_stat:
  assumes "keeps fs fs'" "stat fs p = Inr n"
  shows "\<exists>n'. stat fs' p = Inr n' \<and> is_Dir n' = is_Dir n"
proof -
  from assms(2) obtain q where q: "resolve fs [] p = Inr q" "get fs q = Some n"
    by (auto simp: stat_def split: sum.splits option.splits)
  have r': "resolve fs' [] p = Inr q" using keeps_resolve [OF assms(1) q(1)] .
  show ?thesis
  proof (cases n)
    case (File c m)
    then show ?thesis using keeps_File [OF assms(1), of q c m] q r' by (auto simp: stat_def)
  next
    case (Dir t es)
    then show ?thesis using keeps_Dir [OF assms(1), of q t es] q r' by (auto simp: stat_def)
  qed
qed

lemma keeps_path_exists: "keeps fs fs' \<Longrightarrow> path_exists fs p \<Longrightarrow> path_exists fs' p"
  using keeps_stat [of fs fs' p]
  by (cases "stat fs p") (auto simp: path_exists_def)

lemma keeps_isdir: "keeps fs fs' \<Longrightarrow> path_exists fs p \<Longrightarrow> isdir fs' p = isdir fs p"
  using keeps_stat [of fs fs' p]
  by (cases "stat fs p") (auto simp: path_exists_def isdir_def split: node.splits)

lemma resolve_cases:
  "resolve fs acc p = Inr q \<Longrightarrow> p \<noteq> [] \<Longrightarrow>
     get fs q \<noteq> None \<or> (q \<noteq> [] \<and> (\<exists>t es. get fs (butlast q) = Some (Dir t es)))"
proof (induction p arbitrary: acc)
  case Nil
  then show ?case by simp
next
  case (Cons c cs)
  from Cons.prems(1) obtain t es where d: "get fs acc = Some (Dir t es)"
    by (auto split: option.splits node.splits)
  have par: "get fs (butlast acc) \<noteq> None"
  proof (cases "acc = []")
    case True
    then show ?thesis by simp
  next
    case False
    then show ?thesis using get_butlast_Dir [of acc fs "[]"] d by auto
  qed
  consider (dot) "c = [] \<or> c = ''.''" | (up) "c = ''..''" | (name) "c \<noteq> []" "c \<noteq> ''.''" "c \<noteq> ''..''"
    by blast
  then show ?case
  proof cases
    case dot
    then have r: "resolve fs acc cs = Inr q" using Cons.prems(1) d by auto
    show ?thesis
    proof (cases "cs = []")
      case True
      then show ?thesis using r d by simp
    next
      case False
      then show ?thesis using Cons.IH [OF r] by simp
    qed
  next
    case up
    then have r: "resolve fs (butlast acc) cs = Inr q" using Cons.prems(1) d by auto
    show ?thesis
    proof (cases "cs = []")
      case True
      then show ?thesis using r par by auto
    next
      case False
      then show ?thesis using Cons.IH [OF r] by simp
    qed
  next
    case name
    then have r: "resolve fs (acc @ [c]) cs = Inr q" using Cons.prems(1) d by auto
    show ?thesis
    proof (cases "cs = []")
      case True
      then show ?thesis using r d by auto
    next
      case False
      then show ?thesis using Cons.IH [OF r] by simp
    qed
  qed
qed

lemma resolve_parent:
  assumes "resolve fs [] p = Inr q" "get fs q = None"
  shows "q \<noteq> [] \<and> (\<exists>t es. get fs (butlast q) = Some (Dir t es))"
proof (cases "p = []")
  case True
  then show ?thesis using assms by simp
next
  case False
  then show ?thesis using resolve_cases [OF assms(1)] assms(2) by blast
qed

lemma get_below_None: "get fs q = None \<Longrightarrow> prefix q r \<Longrightarrow> get fs r = None"
  by (auto simp: prefix_def get_append)

lemma get_File_below: "get (File c m) zs = Some y \<Longrightarrow> zs = []"
  by (cases zs) auto

lemma get_below_File: "get fs q = Some (File c m) \<Longrightarrow> prefix q r \<Longrightarrow> r \<noteq> q \<Longrightarrow> get fs r = None"
  using get_File_below by (fastforce simp: prefix_def get_append)

lemma get_look: "get fs r = Some n \<Longrightarrow> look fs r = Some (shape_of n)"
  by (simp add: look_def)

lemma look_is_Dir: "look fs r = Some sh \<Longrightarrow> \<exists>n. get fs r = Some n \<and> is_Dir n = (\<exists>t. sh = D t)"
  by (cases "get fs r"; cases "the (get fs r)") (auto simp: look_def)

lemma keeps_put_new:
  assumes "q \<noteq> []" "get fs (butlast q) = Some (Dir t es)" "get fs q = None"
  shows "keeps fs (put now fs q v)"
  unfolding keeps_def
proof (intro allI impI)
  fix r n
  assume g: "get fs r = Some n"
  then have np: "\<not> prefix q r" using get_below_None [OF assms(3), of r] by auto
  show "\<exists>n'. get (put now fs q v) r = Some n' \<and> is_Dir n' = is_Dir n"
  proof (cases "r = butlast q")
    case True
    then have "look (put now fs q v) r = Some (D now)"
      using np assms(3) by (simp add: look_put [OF assms(1,2)])
    then show ?thesis using look_is_Dir True g assms(2) by fastforce
  next
    case False
    then have "look (put now fs q v) r = Some (shape_of n)"
      using np g by (simp add: look_put [OF assms(1,2)] get_look)
    then show ?thesis using look_is_Dir [of "put now fs q v" r "shape_of n"] by (cases n) auto
  qed
qed

lemma keeps_put_file:
  assumes "get fs q = Some (File c m)"
  shows "keeps fs (put now fs q (File c' m'))"
proof (cases "q = []")
  case True
  then have "fs = File c m" using assms by simp
  then show ?thesis using True get_File_below by (fastforce simp: keeps_def)
next
  case False
  obtain t es where par: "get fs (butlast q) = Some (Dir t es)"
    using get_butlast_Dir [OF False, of fs "[]"] assms by auto
  show ?thesis
    unfolding keeps_def
  proof (intro allI impI)
    fix r n
    assume g: "get fs r = Some n"
    show "\<exists>n'. get (put now fs q (File c' m')) r = Some n' \<and> is_Dir n' = is_Dir n"
    proof (cases "r = q")
      case True
      then have "look (put now fs q (File c' m')) r = look (File c' m') []"
        by (simp add: look_put [OF False par])
      then have "look (put now fs q (File c' m')) r = Some (F c' m')"
        by (simp add: look_def)
      then show ?thesis using look_is_Dir True g assms by fastforce
    next
      case neq: False
      then have np: "\<not> prefix q r" using get_below_File [OF assms, of r] g by auto
      have "look (put now fs q (File c' m')) r = Some (shape_of n)"
      proof (cases "r = butlast q")
        case True
        then have "n = Dir t es" using g par by simp
        then show ?thesis using np True assms by (simp add: look_put [OF \<open>q \<noteq> []\<close> par])
      next
        case False
        then show ?thesis using np g by (simp add: look_put [OF \<open>q \<noteq> []\<close> par] get_look)
      qed
      then show ?thesis using look_is_Dir [of "put now fs q (File c' m')" r "shape_of n"] by (cases n) auto
    qed
  qed
qed

lemma keeps_mkdir: "keeps fs (state_of (mkdir now fs p))"
  using resolve_parent [of fs p]
  by (auto simp: mkdir_def keeps_refl keeps_put_new split: sum.splits)

lemma keeps_mkdir_tail: "keeps fs (state_of (mkdir_tail now ok fs p))"
  using keeps_mkdir [of fs now p]
  by (auto simp: mkdir_tail_def split: outcome.splits)

lemma keeps_makedirs_rev: "keeps fs (state_of (makedirs_rev now ok fs rp))"
proof (induction rp arbitrary: fs)
  case Nil
  then show ?case by (simp add: keeps_mkdir_tail)
next
  case (Cons tail rhead)
  have inner: "keeps fs (state_of (makedirs_rev now ok fs rhead))" by (rule Cons.IH)
  show ?case
  proof (cases "makedirs_rev now ok fs rhead")
    case (Ok fs')
    then show ?thesis
      using inner keeps_trans [OF _ keeps_mkdir_tail [of fs' now ok "rev (tail # rhead)"]]
        keeps_mkdir_tail [of fs now ok "rev (tail # rhead)"]
      by auto
  next
    case (Raise e fs')
    then show ?thesis
      using inner keeps_trans [OF _ keeps_mkdir_tail [of fs' now ok "rev (tail # rhead)"]]
        keeps_mkdir_tail [of fs now ok "rev (tail # rhead)"]
      by auto
  qed
qed

lemma keeps_makedirs: "keeps fs (state_of (makedirs now ok fs p))"
  by (simp add: makedirs_def keeps_makedirs_rev)

lemma keeps_copy2: "keeps fs (state_of (copy2 now fs src dst))"
proof -
  have "keeps fs (put now fs q (File c m))"
    if "resolve fs [] p = Inr q" "\<forall>t es. get fs q \<noteq> Some (Dir t es)" for p q c m
  proof (cases "get fs q")
    case None
    then show ?thesis using resolve_parent [OF that(1)] keeps_put_new by blast
  next
    case (Some n)
    then show ?thesis using that(2) keeps_put_file by (cases n) auto
  qed
  then show ?thesis
    by (auto simp: copy2_def Let_def keeps_refl split: sum.splits node.splits option.splits)
qed

lemma each_invariant:
  assumes step: "\<And>x s. R s (state_of (f x s))"
    and refl: "\<And>s. R s s" and trans: "\<And>a b c. R a b \<Longrightarrow> R b c \<Longrightarrow> R a c"
  shows "R s (state_of (each f xs s))"
proof (induction xs arbitrary: s)
  case Nil
  then show ?case by (simp add: refl)
next
  case (Cons x xs)
  show ?case
  proof (cases "f x s")
    case (Ok s')
    then show ?thesis using step [of s x] Cons.IH [of s'] trans by auto
  next
    case (Raise e s')
    then show ?thesis using step [of s x] by auto
  qed
qed

lemma keeps_state_refl: "keeps_state s s"
  by (simp add: keeps_state_def keeps_refl)

lemma keeps_state_trans: "keeps_state a b \<Longrightarrow> keeps_state b c \<Longrightarrow> keeps_state a c"
  unfolding keeps_state_def by (rule keeps_trans)

lemma keeps_sync_file: "keeps_state s (state_of (sync_file now src_dir dest_dir file s))"
  using keeps_copy2 [of "fst s" now "join src_dir [file]" "join dest_dir [file]"]
  by (auto simp: sync_file_def keeps_state_def Let_def keeps_refl split: sum.splits bool.splits outcome.splits)

lemma keeps_files: "keeps_state s (state_of (each (sync_file now src_dir dest_dir) files s))"
  by (rule each_invariant [where R = keeps_state, OF keeps_sync_file keeps_state_refl keeps_state_trans])

lemma keeps_sync_dir: "keeps_state s (state_of (sync_dir now src dest d s))"
proof -
  let ?dd = "join dest (relpath (fst d) src)"
  show ?thesis
  proof (cases "path_exists (fst s) ?dd")
    case True
    then show ?thesis using keeps_files by (simp add: sync_dir_def Let_def)
  next
    case False
    show ?thesis
    proof (cases "makedirs now False (fst s) ?dd")
      case (Ok fs')
      have "keeps (fst s) fs'" using keeps_makedirs [of "fst s" now False ?dd] Ok by simp
      then have "keeps_state s (fs', snd s @ [Makedirs ?dd])" by (simp add: keeps_state_def)
      then show ?thesis using False Ok
          keeps_files [of "(fs', snd s @ [Makedirs ?dd])" now "fst d" ?dd "snd d"]
        by (auto simp: sync_dir_def Let_def intro: keeps_state_trans)
    next
      case (Raise e fs')
      have "keeps (fst s) fs'" using keeps_makedirs [of "fst s" now False ?dd] Raise by simp
      then show ?thesis using False Raise by (simp add: sync_dir_def Let_def keeps_state_def)
    qed
  qed
qed

lemma keeps_one_way: "keeps_state s (state_of (one_way now src dest s))"
  unfolding one_way_def
  by (rule each_invariant [where R = keeps_state, OF keeps_sync_dir keeps_state_refl keeps_state_trans])

lemma keeps_sync: "keeps fs (fst (state_of (sync_folders_with_progress now src dest fs)))"
proof (cases "one_way now src dest (fs, [])")
  case (Ok s)
  then show ?thesis
    using keeps_one_way [of "(fs, [])" now src dest] keeps_one_way [of s now dest src]
    by (auto simp: sync_folders_with_progress_def keeps_state_def intro: keeps_trans)
next
  case (Raise e s)
  then show ?thesis
    using keeps_one_way [of "(fs, [])" now src dest]
    by (auto simp: sync_folders_with_progress_def keeps_state_def)
qed

text \<open>
  C10.  Whatever \<open>sync_folders_with_progress(src, dest)\<close> does, and whether it returns
  or raises, every path that led to a file or a directory before the call leads to one
  afterwards, and to a directory exactly if it did before.
\<close>

theorem sync_never_removes:
  "path_exists fs p \<longrightarrow>
     path_exists (fst (state_of (sync_folders_with_progress now src dest fs))) p
     \<and> isdir (fst (state_of (sync_folders_with_progress now src dest fs))) p = isdir fs p"
  using keeps_sync [of fs now src dest] keeps_path_exists keeps_isdir by blast

theorem sync_never_removes_witness:
  "path_exists scenario [''B'', ''photo.png'']
   \<and> path_exists (fst (state_of (sync_folders_with_progress 9 [''A''] [''B''] scenario)))
        [''B'', ''photo.png'']
   \<and> isdir (fst (state_of (sync_folders_with_progress 9 [''A''] [''B''] scenario)))
        [''B'', ''photo.png'']
       = isdir scenario [''B'', ''photo.png'']"
proof -
  have "path_exists scenario [''B'', ''photo.png'']"
    by (simp add: path_exists_def stat_def scenario_def)
  then show ?thesis
    using sync_never_removes [of scenario "[''B'', ''photo.png'']" 9 "[''A'']" "[''B'']"]
    by blast
qed


section \<open>Well-formed trees and the walk\<close>

lemma wf_get: "wf_node n \<Longrightarrow> get n rel = Some m \<Longrightarrow> wf_node m \<and> normalised rel"
proof (induction rel arbitrary: n)
  case Nil
  then show ?case by (simp add: normalised_def)
next
  case (Cons x xs)
  then obtain t es n' where n: "n = Dir t es" "map_of es x = Some n'" "get n' xs = Some m"
    by (cases n) (auto split: option.splits)
  then have mem: "(x, n') \<in> set es" by (simp add: map_of_SomeD)
  then have "wf_node n'" "normalised [x]" using Cons.prems(1) n(1) by auto
  then show ?case using Cons.IH [OF _ n(3)] by (simp add: normalised_def)
qed

lemma walk_sound:
  "wf_node n \<Longrightarrow> (d, files) \<in> set (walk p n) \<Longrightarrow>
     \<exists>rel t es. d = p @ rel \<and> get n rel = Some (Dir t es) \<and> files = filenames es"
proof (induction p n arbitrary: d files rule: walk.induct)
  case (1 dirpath c m)
  then show ?case by simp
next
  case (2 dirpath t es)
  from "2.prems"(2) consider
    (here) "d = dirpath" "files = filenames es"
    | (below) e where "e \<in> set es" "is_Dir (snd e)" "(d, files) \<in> set (walk (join dirpath [fst e]) (snd e))"
    by (auto simp: filenames_def)
  then show ?case
  proof cases
    case here
    then show ?thesis by (intro exI [of _ "[]"]) simp
  next
    case below
    have wfe: "wf_node (snd e)" using "2.prems"(1) below(1) by auto
    have "e \<in> set (filter (\<lambda>e. is_Dir (snd e)) es)" using below by simp
    from "2.IH" [OF this wfe below(3)]
    obtain rel t' es' where r: "d = join dirpath [fst e] @ rel" "get (snd e) rel = Some (Dir t' es')"
      "files = filenames es'" by blast
    have "map_of es (fst e) = Some (snd e)"
      using "2.prems"(1) below(1) by (cases e) (auto intro: map_of_is_SomeI)
    then have "get (Dir t es) (fst e # rel) = Some (Dir t' es')" using r(2) by simp
    then show ?thesis using r(1,3) by (intro exI [of _ "fst e # rel"]) (auto simp: join_def)
  qed
qed

lemma walk_complete:
  "get n rel = Some (Dir t es) \<Longrightarrow> (p @ rel, filenames es) \<in> set (walk p n)"
proof (induction rel arbitrary: n p)
  case Nil
  then show ?case by (simp add: filenames_def)
next
  case (Cons x xs)
  then obtain t0 es0 n' where n: "n = Dir t0 es0" "map_of es0 x = Some n'"
    "get n' xs = Some (Dir t es)"
    by (cases n) (auto split: option.splits)
  have mem: "(x, n') \<in> set es0" using n(2) by (simp add: map_of_SomeD)
  have dir: "is_Dir n'" using n(3) by (cases xs; cases n') auto
  have "((p @ [x]) @ xs, filenames es) \<in> set (walk (p @ [x]) n')"
    using Cons.IH [OF n(3)] .
  then show ?case using n(1) mem dir by (force simp: join_def)
qed

lemma get_put_other:
  "\<not> prefix q r \<Longrightarrow> \<not> prefix r q \<Longrightarrow> get (put now fs q v) r = get fs r"
proof (induction now fs q v arbitrary: r rule: put.induct)
  case (1 now n v)
  then show ?case by simp
next
  case (2 now n x v)
  then show ?case by (cases r; cases n) (auto simp: update_conv')
next
  case (3 now n x y ys v)
  show ?case
  proof (cases n)
    case (File c m)
    then show ?thesis by simp
  next
    case (Dir t es)
    show ?thesis
    proof (cases "map_of es x")
      case None
      then show ?thesis using Dir by simp
    next
      case (Some n')
      show ?thesis
      proof (cases r)
        case Nil
        then show ?thesis using "3.prems" by simp
      next
        case (Cons z zs)
        then show ?thesis using "3.prems" "3.IH" [OF Dir Some, of zs] Dir Some
          by (auto simp: update_conv')
      qed
    qed
  qed
qed

lemma set_update_subset: "e \<in> set (AList.update k v al) \<Longrightarrow> e = (k, v) \<or> e \<in> set al"
  by (induction al) (auto split: if_splits)

lemma wf_put:
  "wf_node fs \<Longrightarrow> wf_node v \<Longrightarrow> normalised q \<Longrightarrow> wf_node (put now fs q v)"
proof (induction now fs q v rule: put.induct)
  case (1 now n v)
  then show ?case by simp
next
  case (2 now n x v)
  then show ?case
    by (cases n) (auto simp: distinct_update normalised_def dest!: set_update_subset)
next
  case (3 now n x y ys v)
  show ?case
  proof (cases n)
    case (File c m)
    then show ?thesis by simp
  next
    case (Dir t es)
    show ?thesis
    proof (cases "map_of es x")
      case None
      then show ?thesis using Dir "3.prems" by simp
    next
      case (Some n')
      have "wf_node n'" using "3.prems"(1) Dir map_of_SomeD [OF Some] by auto
      then have "wf_node (put now n' (y # ys) v)"
        using "3.IH" [OF Dir Some] "3.prems" by (simp add: normalised_def)
      then show ?thesis using Dir Some "3.prems"
        by (auto simp: distinct_update normalised_def dest!: set_update_subset)
    qed
  qed
qed

section \<open>The calls on normalised paths\<close>

lemma file_at_look: "file_at fs r = (case look fs r of Some (F c m) \<Rightarrow> Some (c, m) | _ \<Rightarrow> None)"
  by (cases "get fs r"; cases "the (get fs r)") (auto simp: file_at_def look_def)

lemma dir_at_look: "dir_at fs r = (case look fs r of Some (D t) \<Rightarrow> True | _ \<Rightarrow> False)"
  by (cases "get fs r"; cases "the (get fs r)") (auto simp: dir_at_def look_def)

lemma dir_at_get: "dir_at fs r = (\<exists>t es. get fs r = Some (Dir t es))"
  by (cases "get fs r"; cases "the (get fs r)") (auto simp: dir_at_def)

lemma file_at_get: "(file_at fs r = Some (c, m)) = (get fs r = Some (File c m))"
  by (cases "get fs r"; cases "the (get fs r)") (auto simp: file_at_def)

lemma get_None_iff: "(get fs r = None) = (file_at fs r = None \<and> \<not> dir_at fs r)"
  by (cases "get fs r"; cases "the (get fs r)") (auto simp: file_at_def dir_at_def)

lemma butlast_not_prefix: "q \<noteq> [] \<Longrightarrow> \<not> prefix q (butlast q)"
  by (metis length_butlast prefix_length_le diff_less length_greater_0_conv less_one not_le)

lemma file_at_put:
  assumes "q \<noteq> []" "dir_at fs (butlast q)"
  shows "file_at (put now fs q v) r =
           (if prefix q r then file_at v (drop (length q) r) else file_at fs r)"
proof -
  obtain t es where par: "get fs (butlast q) = Some (Dir t es)"
    using assms(2) by (auto simp: dir_at_get)
  show ?thesis
  proof (cases "r = butlast q")
    case True
    have "look (put now fs q v) r = Some (D (if get fs q = None then now else t))"
      using True butlast_not_prefix [OF assms(1)] by (simp add: look_put [OF assms(1) par])
    then have "file_at (put now fs q v) r = None" by (simp add: file_at_look)
    moreover have "file_at fs r = None" using True par by (simp add: file_at_def)
    ultimately show ?thesis using True butlast_not_prefix [OF assms(1)] by simp
  next
    case False
    then show ?thesis
      by (simp add: file_at_look look_put [OF assms(1) par])
  qed
qed

lemma dir_at_put:
  assumes "q \<noteq> []" "dir_at fs (butlast q)"
  shows "dir_at (put now fs q v) r =
           (if prefix q r then dir_at v (drop (length q) r) else dir_at fs r)"
proof -
  obtain t es where par: "get fs (butlast q) = Some (Dir t es)"
    using assms(2) by (auto simp: dir_at_get)
  show ?thesis
  proof (cases "r = butlast q")
    case True
    have "look (put now fs q v) r = Some (D (if get fs q = None then now else t))"
      using True butlast_not_prefix [OF assms(1)] by (simp add: look_put [OF assms(1) par])
    then have "dir_at (put now fs q v) r" by (simp add: dir_at_look)
    moreover have "dir_at fs r" using True par by (simp add: dir_at_def)
    ultimately show ?thesis using True butlast_not_prefix [OF assms(1)] by simp
  next
    case False
    then show ?thesis
      by (simp add: dir_at_look look_put [OF assms(1) par])
  qed
qed

lemma resolve_under_dir:
  assumes "normalised p" "p \<noteq> []" "dir_at fs (butlast p)"
  shows "resolve fs [] p = Inr p"
  using assms resolve_ok [of p fs "[]"] by (auto simp: dir_at_get)

lemma mkdir_spec:
  assumes "normalised p" "p \<noteq> []" "dir_at fs (butlast p)" "get fs p = None"
  shows "mkdir now fs p = Ok (put now fs p (Dir now []))"
  using assms by (simp add: mkdir_def resolve_under_dir)

lemma copy2_spec:
  assumes "normalised sf" "normalised df" "file_at fs sf = Some (c, m)"
    "\<not> dir_at fs df" "df \<noteq> []" "dir_at fs (butlast df)" "sf \<noteq> df"
  shows "copy2 now fs sf df = Ok (put now fs df (File c m))"
proof -
  have s: "get fs sf = Some (File c m)" using assms(3) by (simp add: file_at_get)
  have rs: "resolve fs [] sf = Inr sf" using resolve_exists [OF assms(1), of fs "[]"] s by simp
  have rd: "resolve fs [] df = Inr df" using resolve_under_dir assms by simp
  have nd: "\<not> isdir fs df" using assms(2,4) by (simp add: isdir_normalised dir_at_get)
  have st: "stat fs sf = Inr (File c m)" using s assms(1) by (simp add: stat_normalised)
  have "\<forall>t es. get fs df \<noteq> Some (Dir t es)" using assms(4) by (simp add: dir_at_get)
  then show ?thesis using nd rs rd st assms(7)
    by (auto simp: copy2_def samefile_def split: option.splits node.splits)
qed

lemma getmtime_file:
  assumes "normalised p" "file_at fs p = Some (c, m)"
  shows "getmtime fs p = Inr m"
  using assms by (simp add: getmtime_def file_at_get stat_normalised [THEN iffD2])

lemma copies_spec:
  assumes "normalised sf" "normalised df" "file_at fs sf = Some (c, m)" "\<not> dir_at fs df"
  shows "copies fs sf df = Inr (case file_at fs df of None \<Rightarrow> True | Some (c', m') \<Rightarrow> m > m')"
proof (cases "file_at fs df")
  case None
  then have "get fs df = None" using assms(4) by (simp add: get_None_iff)
  then show ?thesis using None assms(2) by (simp add: copies_def path_exists_normalised)
next
  case (Some a)
  obtain c' m' where a: "a = (c', m')" by (cases a)
  then have "get fs df = Some (File c' m')" using Some by (simp add: file_at_get)
  then show ?thesis using Some a assms getmtime_file [OF assms(2), of fs c' m'] getmtime_file [OF assms(1,3)]
    by (simp add: copies_def path_exists_normalised)
qed

lemma resolve_dot:
  assumes "normalised d" "dir_at fs d"
  shows "resolve fs [] (d @ ''.'' # r) = resolve fs [] (d @ r)"
proof -
  obtain t es where g: "get fs d = Some (Dir t es)" using assms(2) by (auto simp: dir_at_get)
  have "resolve fs [] d = Inr d" using resolve_exists [OF assms(1), of fs "[]"] g by simp
  then show ?thesis using g by (simp add: resolve_append)
qed

lemma stat_dot: "normalised d \<Longrightarrow> dir_at fs d \<Longrightarrow> stat fs (d @ ''.'' # r) = stat fs (d @ r)"
  by (simp add: stat_def resolve_dot)

lemma path_exists_dot:
  "normalised d \<Longrightarrow> dir_at fs d \<Longrightarrow> path_exists fs (d @ ''.'' # r) = path_exists fs (d @ r)"
  by (simp add: path_exists_def stat_dot)

lemma isdir_dot: "normalised d \<Longrightarrow> dir_at fs d \<Longrightarrow> isdir fs (d @ ''.'' # r) = isdir fs (d @ r)"
  by (simp add: isdir_def stat_dot)

lemma getmtime_dot:
  "normalised d \<Longrightarrow> dir_at fs d \<Longrightarrow> getmtime fs (d @ ''.'' # r) = getmtime fs (d @ r)"
  by (simp add: getmtime_def stat_dot)

lemma copies_dot:
  "normalised d \<Longrightarrow> dir_at fs d \<Longrightarrow> copies fs s (d @ ''.'' # r) = copies fs s (d @ r)"
  by (simp add: copies_def path_exists_dot getmtime_dot cong: sum.case_cong)

lemma copy2_dot:
  assumes "normalised d" "dir_at fs d" "\<not> isdir fs (d @ r)"
  shows "copy2 now fs s (d @ ''.'' # r) = copy2 now fs s (d @ r)"
  using assms
  by (simp add: copy2_def Let_def isdir_dot samefile_def resolve_dot
        cong: sum.case_cong node.case_cong option.case_cong if_cong)

lemma dir_at_prefix: "dir_at fs h \<Longrightarrow> prefix q h \<Longrightarrow> dir_at fs q"
proof -
  assume d: "dir_at fs h" and p: "prefix q h"
  then obtain zs where h: "h = q @ zs" by (auto simp: prefix_def)
  obtain t es where g: "get fs (q @ zs) = Some (Dir t es)" using d h by (auto simp: dir_at_get)
  show ?thesis
  proof (cases "zs = []")
    case True
    then show ?thesis using d h by simp
  next
    case False
    then obtain m where m: "get fs q = Some m" "get m zs = Some (Dir t es)"
      using g by (auto simp: get_append split: option.splits)
    then show ?thesis using False get_Cons_Some [of m "hd zs" "tl zs"] by (auto simp: dir_at_get)
  qed
qed

lemma mkdir_effects:
  assumes "normalised p" "p \<noteq> []" "dir_at fs (butlast p)" "get fs p = None" "wf_node fs"
  shows "wf_node (put now fs p (Dir now []))"
    and "file_at (put now fs p (Dir now [])) q = file_at fs q"
    and "dir_at (put now fs p (Dir now [])) q = (dir_at fs q \<or> q = p)"
    and "\<not> prefix p q \<Longrightarrow> \<not> prefix q p \<Longrightarrow> get (put now fs p (Dir now [])) q = get fs q"
proof -
  show "wf_node (put now fs p (Dir now []))" using assms by (simp add: wf_put)
  have below: "prefix p q \<Longrightarrow> get fs q = None" for q using get_below_None [OF assms(4)] by simp
  have sub: "get (Dir now []) zs = (if zs = [] then Some (Dir now []) else None)" for zs
    by (cases zs) auto
  have subf: "file_at (Dir now []) zs = None" for zs by (simp add: file_at_def sub)
  have subd: "dir_at (Dir now []) zs = (zs = [])" for zs by (simp add: dir_at_def sub)
  show "file_at (put now fs p (Dir now [])) q = file_at fs q"
  proof (cases "prefix p q")
    case True
    then have "file_at fs q = None" using below [of q] by (simp add: get_None_iff)
    then show ?thesis using True by (simp add: file_at_put [OF assms(2,3)] subf)
  next
    case False
    then show ?thesis by (simp add: file_at_put [OF assms(2,3)])
  qed
  show "dir_at (put now fs p (Dir now [])) q = (dir_at fs q \<or> q = p)"
  proof (cases "prefix p q")
    case True
    then obtain zs where q: "q = p @ zs" by (auto simp: prefix_def)
    have "\<not> dir_at fs q" using below [OF True] by (simp add: get_None_iff)
    then show ?thesis using True q
      by (simp add: dir_at_put [OF assms(2,3)] subd)
  next
    case False
    then show ?thesis by (auto simp: dir_at_put [OF assms(2,3)])
  qed
  show "\<not> prefix p q \<Longrightarrow> \<not> prefix q p \<Longrightarrow> get (put now fs p (Dir now [])) q = get fs q"
    by (rule get_put_other)
qed

lemma makedirs_spec:
  assumes "normalised p" "get fs p = None" "\<forall>k. file_at fs (take k p) = None" "wf_node fs"
  shows "\<exists>fs'. makedirs now False fs p = Ok fs' \<and> wf_node fs'
           \<and> (\<forall>q. file_at fs' q = file_at fs q)
           \<and> (\<forall>q. dir_at fs' q = (dir_at fs q \<or> prefix q p))
           \<and> (\<forall>a q. prefix a p \<longrightarrow> get fs a \<noteq> None \<longrightarrow> \<not> prefix a q \<longrightarrow> \<not> prefix q a
                  \<longrightarrow> get fs' q = get fs q)"
  using assms
proof (induction p arbitrary: fs rule: rev_induct)
  case Nil
  then show ?case by simp
next
  case (snoc tail head)
  let ?p = "head @ [tail]"
  have nh: "normalised head" and nt: "tail \<noteq> ''.''" using snoc.prems(1) by (auto simp: normalised_def)
  have nofile: "\<forall>k. file_at fs (take k head) = None"
  proof
    fix k
    have "take (min k (length head)) ?p = take k head" by (simp add: min_def)
    then show "file_at fs (take k head) = None" using snoc.prems(3) by metis
  qed
  have step: "\<exists>fs'. mkdir_tail now False fs1 ?p = Ok fs' \<and> wf_node fs'
           \<and> (\<forall>q. file_at fs' q = file_at fs1 q)
           \<and> (\<forall>q. dir_at fs' q = (dir_at fs1 q \<or> q = ?p))
           \<and> (\<forall>q. \<not> prefix ?p q \<longrightarrow> \<not> prefix q ?p \<longrightarrow> get fs' q = get fs1 q)"
    if "dir_at fs1 head" "get fs1 ?p = None" "wf_node fs1" for fs1
  proof -
    have b: "dir_at fs1 (butlast ?p)" using that(1) by simp
    have ne: "?p \<noteq> []" by simp
    have "mkdir_tail now False fs1 ?p = Ok (put now fs1 ?p (Dir now []))"
      using mkdir_spec [OF snoc.prems(1) ne b that(2)] by (simp add: mkdir_tail_def)
    then show ?thesis
      using mkdir_effects [OF snoc.prems(1) ne b that(2,3), where now = now] by auto
  qed
  show ?case
  proof (cases "get fs head = None")
    case True
    from snoc.IH [OF nh True nofile snoc.prems(4)]
    obtain fs1 where fs1: "makedirs now False fs head = Ok fs1" "wf_node fs1"
      "\<forall>q. file_at fs1 q = file_at fs q" "\<forall>q. dir_at fs1 q = (dir_at fs q \<or> prefix q head)"
      "\<forall>a q. prefix a head \<longrightarrow> get fs a \<noteq> None \<longrightarrow> \<not> prefix a q \<longrightarrow> \<not> prefix q a
                  \<longrightarrow> get fs1 q = get fs q"
      by blast
    have d1: "dir_at fs1 head" using fs1(4) by simp
    have "file_at fs ?p = None" "\<not> dir_at fs ?p" using snoc.prems(2) by (simp_all add: get_None_iff)
    then have g1: "get fs1 ?p = None" using fs1(3,4) by (simp add: get_None_iff)
    from step [OF d1 g1 fs1(2)] obtain fs' where fs': "mkdir_tail now False fs1 ?p = Ok fs'" "wf_node fs'"
      "\<forall>q. file_at fs' q = file_at fs1 q" "\<forall>q. dir_at fs' q = (dir_at fs1 q \<or> q = ?p)"
      "\<forall>q. \<not> prefix ?p q \<longrightarrow> \<not> prefix q ?p \<longrightarrow> get fs' q = get fs1 q"
      by blast
    have run: "makedirs now False fs ?p = Ok fs'"
      using True nh nt fs1(1) fs'(1) by (simp add: makedirs_def path_exists_normalised)
    have frame: "get fs' q = get fs q"
      if "prefix a ?p" "get fs a \<noteq> None" "\<not> prefix a q" "\<not> prefix q a" for a q
    proof -
      have "a \<noteq> ?p" using that(2) snoc.prems(2) by auto
      then have ah: "prefix a head" using that(1) by (simp add: prefix_snoc)
      have "\<not> prefix ?p q" using that(1,3) by (meson prefix_order.trans)
      moreover have "\<not> prefix q ?p" using that(1,3,4) by (meson prefix_same_cases)
      ultimately show ?thesis using fs'(5) fs1(5) ah that by metis
    qed
    show ?thesis
      using run fs'(2) fs'(3) fs1(3) fs'(4) fs1(4) frame
      by (intro exI [of _ fs']) (auto simp: prefix_snoc)
  next
    case False
    have "file_at fs head = None" using nofile [rule_format, of "length head"] by simp
    then have d: "dir_at fs head" using False by (simp add: get_None_iff)
    from step [OF d snoc.prems(2,4)] obtain fs' where fs': "mkdir_tail now False fs ?p = Ok fs'" "wf_node fs'"
      "\<forall>q. file_at fs' q = file_at fs q" "\<forall>q. dir_at fs' q = (dir_at fs q \<or> q = ?p)"
      "\<forall>q. \<not> prefix ?p q \<longrightarrow> \<not> prefix q ?p \<longrightarrow> get fs' q = get fs q"
      by blast
    have run: "makedirs now False fs ?p = Ok fs'"
      using False nh fs'(1) by (simp add: makedirs_def path_exists_normalised)
    have frame: "get fs' q = get fs q"
      if "prefix a ?p" "get fs a \<noteq> None" "\<not> prefix a q" "\<not> prefix q a" for a q
    proof -
      have "\<not> prefix ?p q" using that(1,3) by (meson prefix_order.trans)
      moreover have "\<not> prefix q ?p" using that(1,3,4) by (meson prefix_same_cases)
      ultimately show ?thesis using fs'(5) by metis
    qed
    have "dir_at fs q" if "prefix q head" for q using dir_at_prefix [OF d that] .
    then show ?thesis
      using run fs'(2,3,4) frame
      by (intro exI [of _ fs']) (auto simp: prefix_snoc)
  qed
qed

section \<open>One pass: the invariant\<close>

lemma newer_idem: "newer s (newer s d) = newer s d"
  by (cases s; cases d) auto

lemma apart:
  assumes "\<not> prefix src dest" "\<not> prefix dest src"
  shows "\<not> prefix dest (src @ x)" "\<not> prefix (src @ x) dest"
proof -
  show "\<not> prefix dest (src @ x)"
    using assms by (meson prefix_same_cases prefixI)
  show "\<not> prefix (src @ x) dest"
    using assms by (meson prefix_order.trans prefixI)
qed

lemma reached_src:
  assumes "base src dest fs0" "reached src dest fs0 FP DP fs"
  shows "get fs (src @ x) = get fs0 (src @ x)"
  using assms apart [of src dest x] by (simp add: base_def reached_def)

lemma reached_src_file:
  assumes "base src dest fs0" "reached src dest fs0 FP DP fs"
  shows "file_at fs (src @ x) = file_at fs0 (src @ x)"
  using reached_src [OF assms] by (simp add: file_at_def)

lemma file_dir_exclusive: "file_at fs p \<noteq> None \<Longrightarrow> \<not> dir_at fs p"
  by (auto simp: file_at_def dir_at_def split: option.splits node.splits)

lemma dir_at_append_prefix: "dir_at fs (a @ d) \<Longrightarrow> prefix r d \<Longrightarrow> dir_at fs (a @ r)"
  using dir_at_prefix [of fs "a @ d" "a @ r"] by simp

lemma reached_compatible:
  assumes b: "base src dest fs0" and r: "reached src dest fs0 FP DP fs"
    and dp: "DP \<subseteq> {r. dir_at fs0 (src @ r)}"
  shows "compatible fs0 src fs dest"
  unfolding compatible_def
proof (intro allI conjI impI)
  fix x
  have c0: "compatible fs0 src fs0 dest" using b by (simp add: base_def)
  {
    assume f: "file_at fs0 (src @ x) \<noteq> None"
    have "\<not> dir_at fs0 (dest @ x)" using c0 f by (simp add: compatible_def)
    moreover have "\<not> (\<exists>d\<in>DP. prefix x d)"
    proof
      assume "\<exists>d\<in>DP. prefix x d"
      then obtain d where "d \<in> DP" "prefix x d" by blast
      then have "dir_at fs0 (src @ x)" using dp dir_at_append_prefix by blast
      then show False using f file_dir_exclusive by blast
    qed
    ultimately show "\<not> dir_at fs (dest @ x)" using r by (simp add: reached_def)
  }
  {
    assume d: "dir_at fs0 (src @ x)"
    then have "file_at fs0 (dest @ x) = None" using c0 by (simp add: compatible_def)
    moreover have "file_at fs0 (src @ x) = None" using d file_dir_exclusive by blast
    ultimately show "file_at fs (dest @ x) = None" using r by (simp add: reached_def)
  }
qed

lemma reached_dest_dir:
  assumes "base src dest fs0" "reached src dest fs0 FP DP fs"
  shows "dir_at fs dest"
proof -
  have "dir_at fs (dest @ []) = (dir_at fs0 (dest @ []) \<or> (\<exists>d\<in>DP. prefix [] d))"
    using assms(2) unfolding reached_def by blast
  then show ?thesis using assms(1) by (simp add: base_def)
qed

lemma file_at_File: "file_at (File c m) zs = (if zs = [] then Some (c, m) else None)"
  by (cases zs) (auto simp: file_at_def)

lemma dir_at_File: "\<not> dir_at (File c m) zs"
  by (cases zs) (auto simp: dir_at_def)

lemma put_file_effects:
  assumes "normalised df" "df \<noteq> []" "dir_at fs (butlast df)" "\<not> dir_at fs df" "wf_node fs"
  shows "wf_node (put now fs df (File c m))"
    and "file_at (put now fs df (File c m)) q = (if q = df then Some (c, m) else file_at fs q)"
    and "dir_at (put now fs df (File c m)) q = dir_at fs q"
proof -
  show "wf_node (put now fs df (File c m))" using assms by (simp add: wf_put)
  have below: "get fs q = None" if "prefix df q" "q \<noteq> df" for q
  proof (cases "get fs df")
    case None
    then show ?thesis using get_below_None that by blast
  next
    case (Some n)
    then obtain c' m' where "n = File c' m'" using assms(4) by (cases n) (auto simp: dir_at_def)
    then show ?thesis using Some get_below_File that by blast
  qed
  show "file_at (put now fs df (File c m)) q = (if q = df then Some (c, m) else file_at fs q)"
  proof (cases "prefix df q")
    case True
    then obtain zs where q: "q = df @ zs" by (auto simp: prefix_def)
    show ?thesis
    proof (cases "q = df")
      case True
      then show ?thesis by (simp add: file_at_put [OF assms(2,3)] file_at_File)
    next
      case False
      then have "file_at fs q = None" using below [OF True] by (simp add: get_None_iff)
      then show ?thesis using False q by (simp add: file_at_put [OF assms(2,3)] file_at_File)
    qed
  next
    case False
    then show ?thesis by (auto simp: file_at_put [OF assms(2,3)])
  qed
  show "dir_at (put now fs df (File c m)) q = dir_at fs q"
  proof (cases "prefix df q")
    case True
    have "\<not> dir_at fs q"
    proof (cases "q = df")
      case True
      then show ?thesis using assms(4) by simp
    next
      case False
      then show ?thesis using below [OF True] by (simp add: get_None_iff)
    qed
    then show ?thesis using True by (simp add: dir_at_put [OF assms(2,3)] dir_at_File)
  next
    case False
    then show ?thesis by (simp add: dir_at_put [OF assms(2,3)])
  qed
qed

lemma append_apart:
  assumes "\<not> prefix src dest" "\<not> prefix dest src"
  shows "src @ x \<noteq> dest @ y"
  using assms by (metis append_eq_append_conv2 prefixI)

lemma sync_file_step:
  assumes b: "base src dest fs0" and st: "reached src dest fs0 FP DP fs"
    and dp: "DP \<subseteq> {r. dir_at fs0 (src @ r)}"
    and dd: "dir_at fs (dest @ rel)" and nr: "normalised rel" and nf: "normalised [f]"
    and sf: "file_at fs0 (src @ rel @ [f]) = Some (c, m)"
  shows "\<exists>fs' log'.
           sync_file now (src @ rel) (dest @ (if rel = [] then [''.''] else rel)) f (fs, log)
             = Ok (fs', log')
           \<and> reached src dest fs0 (insert (rel @ [f]) FP) DP fs'
           \<and> (settled fs0 src fs dest (rel @ [f]) \<longrightarrow> fs' = fs \<and> log' = log)"
proof -
  let ?sf = "src @ rel @ [f]" and ?df = "dest @ rel @ [f]"
  let ?dd = "dest @ (if rel = [] then [''.''] else rel)"
  let ?raw = "join ?dd [f]"
  let ?s = "Some (c, m)"
  have ns: "normalised src" and nd: "normalised dest"
    and ap: "\<not> prefix src dest" "\<not> prefix dest src" using b by (simp_all add: base_def)
  have nsf: "normalised ?sf" and ndf: "normalised ?df"
    using ns nd nr nf by (simp_all add: normalised_append)
  have fsf: "file_at fs ?sf = ?s" using reached_src_file [OF b st, of "rel @ [f]"] sf by simp
  have comp: "compatible fs0 src fs dest" using reached_compatible [OF b st dp] .
  have ndd: "\<not> dir_at fs ?df" using comp sf unfolding compatible_def by (metis append_assoc option.distinct(1))
  have ddest: "dir_at fs dest" using reached_dest_dir [OF b st] .
  have wf: "wf_node fs" using st by (simp add: reached_def)
  have raw_copies: "copies fs ?sf ?raw = copies fs ?sf ?df"
    using copies_dot [OF nd ddest, of ?sf "[f]"] by (cases "rel = []") (simp_all add: join_def)
  have nisd: "\<not> isdir fs ?df" using ndd ndf by (simp add: isdir_normalised dir_at_get)
  have raw_copy2: "copy2 now fs ?sf ?raw = copy2 now fs ?sf ?df"
    using copy2_dot [OF nd ddest, of "[f]" now ?sf] nisd by (cases "rel = []") (simp_all add: join_def)
  have cp: "copies fs ?sf ?df = Inr (case file_at fs ?df of None \<Rightarrow> True | Some (c', m') \<Rightarrow> m > m')"
    using copies_spec [OF nsf ndf fsf ndd] .
  have bl: "butlast ?df = dest @ rel" by (simp add: butlast_append)
  have neq: "?sf \<noteq> ?df" using append_apart [OF ap] by blast
  have c2: "copy2 now fs ?sf ?df = Ok (put now fs ?df (File c m))"
    using copy2_spec [OF nsf ndf fsf ndd _ _ neq] dd bl by simp
  have eff: "wf_node (put now fs ?df (File c m))"
    "\<And>q. file_at (put now fs ?df (File c m)) q = (if q = ?df then ?s else file_at fs q)"
    "\<And>q. dir_at (put now fs ?df (File c m)) q = dir_at fs q"
    using put_file_effects [OF ndf _ _ ndd wf, of now c m] dd bl by simp_all
  have key: "newer ?s (file_at fs ?df) = newer ?s (file_at fs0 ?df)"
  proof -
    have "file_at fs (dest @ (rel @ [f])) =
            (if rel @ [f] \<in> FP then newer (file_at fs0 (src @ (rel @ [f]))) (file_at fs0 (dest @ (rel @ [f])))
             else file_at fs0 (dest @ (rel @ [f])))"
      using st unfolding reached_def by blast
    then show ?thesis using sf by (simp add: newer_idem)
  qed
  have old: "file_at fs (dest @ r) =
               (if r \<in> FP then newer (file_at fs0 (src @ r)) (file_at fs0 (dest @ r))
                else file_at fs0 (dest @ r))" for r
    using st unfolding reached_def by blast
  have dirs: "dir_at fs (dest @ r) = (dir_at fs0 (dest @ r) \<or> (\<exists>d\<in>DP. prefix r d))" for r
    using st unfolding reached_def by blast
  have frame: "get fs q = get fs0 q" if "\<not> prefix dest q" "\<not> prefix q dest" for q
    using st that unfolding reached_def by blast
  show ?thesis
  proof (cases "case file_at fs ?df of None \<Rightarrow> True | Some (c', m') \<Rightarrow> m > m'")
    case True
    let ?fs' = "put now fs ?df (File c m)"
    have run: "sync_file now (src @ rel) ?dd f (fs, log) = Ok (?fs', log @ [Copy2 ?sf ?raw])"
      using True cp raw_copies raw_copy2 c2 by (simp add: sync_file_def Let_def join_def)
    have top: "newer ?s (file_at fs ?df) = ?s"
      using True by (cases "file_at fs ?df") auto
    have files: "file_at ?fs' (dest @ r) =
               (if r \<in> insert (rel @ [f]) FP then newer (file_at fs0 (src @ r)) (file_at fs0 (dest @ r))
                else file_at fs0 (dest @ r))" for r
    proof (cases "r = rel @ [f]")
      case True
      then show ?thesis using eff(2) [of "dest @ r"] key top sf by simp
    next
      case False
      then show ?thesis using eff(2) [of "dest @ r"] old [of r] by simp
    qed
    have fr: "get ?fs' q = get fs0 q" if "\<not> prefix dest q" "\<not> prefix q dest" for q
    proof -
      have "\<not> prefix ?df q" using that(1) by (meson prefix_order.trans prefixI)
      moreover have "\<not> prefix q ?df" using that by (meson prefix_same_cases prefixI)
      ultimately show ?thesis using get_put_other frame [OF that] by simp
    qed
    have "reached src dest fs0 (insert (rel @ [f]) FP) DP ?fs'"
      unfolding reached_def using eff(1) files eff(3) dirs fr by simp
    moreover have "\<not> settled fs0 src fs dest (rel @ [f])"
      using True sf by (auto simp: settled_def split: option.splits)
    ultimately show ?thesis using run by blast
  next
    case False
    have run: "sync_file now (src @ rel) ?dd f (fs, log) = Ok (fs, log)"
      using False cp raw_copies by (simp add: sync_file_def Let_def join_def)
    have top: "newer ?s (file_at fs ?df) = file_at fs ?df"
      using False by (cases "file_at fs ?df") auto
    have files: "file_at fs (dest @ r) =
               (if r \<in> insert (rel @ [f]) FP then newer (file_at fs0 (src @ r)) (file_at fs0 (dest @ r))
                else file_at fs0 (dest @ r))" for r
    proof (cases "r = rel @ [f]")
      case True
      then show ?thesis using key top sf by simp
    next
      case False
      then show ?thesis using old [of r] by simp
    qed
    have "reached src dest fs0 (insert (rel @ [f]) FP) DP fs"
      unfolding reached_def using wf files dirs frame by simp
    then show ?thesis using run by blast
  qed
qed

lemma reached_dirs_same:
  assumes "reached src dest fs0 FP DP fs" "reached src dest fs0 FP' DP fs'"
  shows "dir_at fs' (dest @ r) = dir_at fs (dest @ r)"
  using assms unfolding reached_def by simp

lemma sync_files_loop:
  assumes b: "base src dest fs0" and dp: "DP \<subseteq> {r. dir_at fs0 (src @ r)}"
    and nr: "normalised rel"
  shows "reached src dest fs0 FP DP fs \<Longrightarrow> dir_at fs (dest @ rel) \<Longrightarrow>
         (\<forall>f\<in>set fl. normalised [f] \<and> file_at fs0 (src @ rel @ [f]) \<noteq> None) \<Longrightarrow>
         \<exists>fs' log'.
           each (sync_file now (src @ rel) (dest @ (if rel = [] then [''.''] else rel))) fl (fs, log)
             = Ok (fs', log')
           \<and> reached src dest fs0 (FP \<union> (\<lambda>f. rel @ [f]) ` set fl) DP fs'
           \<and> ((\<forall>f\<in>set fl. settled fs0 src fs dest (rel @ [f])) \<longrightarrow> fs' = fs \<and> log' = log)"
proof (induction fl arbitrary: fs log FP)
  case Nil
  then show ?case by simp
next
  case (Cons f fl)
  from Cons.prems(3) obtain c m where sf: "file_at fs0 (src @ rel @ [f]) = Some (c, m)"
    and nf: "normalised [f]" by auto
  from sync_file_step [OF b Cons.prems(1) dp Cons.prems(2) nr nf sf, of now log]
  obtain fs1 log1 where s1:
    "sync_file now (src @ rel) (dest @ (if rel = [] then [''.''] else rel)) f (fs, log) = Ok (fs1, log1)"
    "reached src dest fs0 (insert (rel @ [f]) FP) DP fs1"
    "settled fs0 src fs dest (rel @ [f]) \<longrightarrow> fs1 = fs \<and> log1 = log"
    by blast
  have d1: "dir_at fs1 (dest @ rel)"
    using reached_dirs_same [OF Cons.prems(1) s1(2)] Cons.prems(2) by simp
  have rest: "\<forall>f\<in>set fl. normalised [f] \<and> file_at fs0 (src @ rel @ [f]) \<noteq> None"
    using Cons.prems(3) by simp
  from Cons.IH [OF s1(2) d1 rest, of log1]
  obtain fs' log' where s2:
    "each (sync_file now (src @ rel) (dest @ (if rel = [] then [''.''] else rel))) fl (fs1, log1)
       = Ok (fs', log')"
    "reached src dest fs0 (insert (rel @ [f]) FP \<union> (\<lambda>f. rel @ [f]) ` set fl) DP fs'"
    "(\<forall>f\<in>set fl. settled fs0 src fs1 dest (rel @ [f])) \<longrightarrow> fs' = fs1 \<and> log' = log1"
    by blast
  have eq: "insert (rel @ [f]) FP \<union> (\<lambda>f. rel @ [f]) ` set fl = FP \<union> (\<lambda>f. rel @ [f]) ` set (f # fl)"
    by auto
  have run: "each (sync_file now (src @ rel) (dest @ (if rel = [] then [''.''] else rel))) (f # fl) (fs, log)
       = Ok (fs', log')"
    using s1(1) s2(1) by simp
  have "(\<forall>g\<in>set (f # fl). settled fs0 src fs dest (rel @ [g])) \<longrightarrow> fs' = fs \<and> log' = log"
    using s1(3) s2(3) by auto
  then show ?case using run s2(2) eq by (metis (no_types, lifting))
qed

lemma relpath_entry:
  assumes "normalised src" "normalised rel"
  shows "relpath (src @ rel) src = (if rel = [] then [''.''] else rel)"
  using assms relpath_below [of src rel] relpath_root [of src] by simp

lemma filenames_entry:
  assumes "wf_node (Dir t es)" "f \<in> set (filenames es)"
  shows "normalised [f] \<and> (\<exists>c m. map_of es f = Some (File c m))"
proof -
  from assms(2) obtain x where x: "(f, x) \<in> set es" "\<not> is_Dir x"
    by (auto simp: filenames_def)
  then obtain c m where "x = File c m" by (cases x) auto
  moreover have "map_of es f = Some x" using assms(1) x(1) by (auto intro: map_of_is_SomeI)
  moreover have "normalised [f]" using assms(1) x(1) by auto
  ultimately show ?thesis by simp
qed

lemma take_append_cases:
  "(\<exists>j. take k (a @ b) = take j a) \<or> (\<exists>j. take k (a @ b) = a @ take j b)"
  by (cases "k \<le> length a") auto

lemma sync_dir_step:
  assumes b: "base src dest fs0" and st: "reached src dest fs0 FP DP fs"
    and dp: "DP \<subseteq> {r. dir_at fs0 (src @ r)}"
    and entry: "get fs0 (src @ rel) = Some (Dir t es)"
  shows "\<exists>fs' log'.
           sync_dir now src dest (src @ rel, filenames es) (fs, log) = Ok (fs', log')
           \<and> reached src dest fs0 (FP \<union> (\<lambda>f. rel @ [f]) ` set (filenames es)) (insert rel DP) fs'
           \<and> (dir_at fs (dest @ rel) \<and> (\<forall>f\<in>set (filenames es). settled fs0 src fs dest (rel @ [f]))
                \<longrightarrow> fs' = fs \<and> log' = log)"
proof -
  let ?dd = "dest @ (if rel = [] then [''.''] else rel)"
  have ns: "normalised src" and nd: "normalised dest" and wf0: "wf_node fs0"
    using b by (simp_all add: base_def)
  have wfe: "wf_node (Dir t es)" and nsr: "normalised (src @ rel)"
    using wf_get [OF wf0 entry] by simp_all
  then have nr: "normalised rel" by (simp add: normalised_append)
  have sdir: "dir_at fs0 (src @ rel)" using entry by (simp add: dir_at_def)
  have dp': "insert rel DP \<subseteq> {r. dir_at fs0 (src @ r)}" using dp sdir by simp
  have files: "\<forall>f\<in>set (filenames es). normalised [f] \<and> file_at fs0 (src @ rel @ [f]) \<noteq> None"
  proof
    fix f assume "f \<in> set (filenames es)"
    from filenames_entry [OF wfe this] obtain c m where f: "normalised [f]" "map_of es f = Some (File c m)"
      by blast
    have "get fs0 ((src @ rel) @ [f]) = Some (File c m)"
      unfolding get_append [of fs0 "src @ rel"] using entry f(2) by simp
    then show "normalised [f] \<and> file_at fs0 (src @ rel @ [f]) \<noteq> None"
      using f(1) by (simp add: file_at_def)
  qed
  have rp: "join dest (relpath (src @ rel) src) = ?dd"
    using relpath_entry [OF ns nr] by (simp add: join_def)
  have ddest: "dir_at fs dest" using reached_dest_dir [OF b st] .
  have comp: "compatible fs0 src fs dest" using reached_compatible [OF b st dp] .
  have wf: "wf_node fs" using st by (simp add: reached_def)
  have dirs: "dir_at fs (dest @ r) = (dir_at fs0 (dest @ r) \<or> (\<exists>d\<in>DP. prefix r d))" for r
    using st unfolding reached_def by blast
  have ex: "path_exists fs ?dd = dir_at fs (dest @ rel)"
  proof (cases "rel = []")
    case True
    have "path_exists fs (dest @ ''.'' # []) = path_exists fs (dest @ [])"
      by (rule path_exists_dot [OF nd ddest])
    then show ?thesis using True ddest nd by (auto simp: path_exists_normalised dir_at_get)
  next
    case False
    have "file_at fs (dest @ rel) = None" using comp sdir by (simp add: compatible_def)
    then show ?thesis using False nd nr
      by (simp add: path_exists_normalised normalised_append get_None_iff)
  qed
  show ?thesis
  proof (cases "dir_at fs (dest @ rel)")
    case True
    have st': "reached src dest fs0 FP (insert rel DP) fs"
      unfolding reached_def
    proof (intro conjI allI impI)
      show "wf_node fs" by (rule wf)
      show "file_at fs (dest @ r) =
         (if r \<in> FP then newer (file_at fs0 (src @ r)) (file_at fs0 (dest @ r))
          else file_at fs0 (dest @ r))" for r
        using st unfolding reached_def by blast
      show "dir_at fs (dest @ r) = (dir_at fs0 (dest @ r) \<or> (\<exists>d\<in>insert rel DP. prefix r d))" for r
        using dirs [of r] dir_at_append_prefix [OF True, of r] dirs [of rel] by auto
      show "get fs q = get fs0 q" if "\<not> prefix dest q" "\<not> prefix q dest" for q
        using st that unfolding reached_def by blast
    qed
    from sync_files_loop [OF b dp' nr st' True files, of now log]
    obtain fs' log' where r:
      "each (sync_file now (src @ rel) ?dd) (filenames es) (fs, log) = Ok (fs', log')"
      "reached src dest fs0 (FP \<union> (\<lambda>f. rel @ [f]) ` set (filenames es)) (insert rel DP) fs'"
      "(\<forall>f\<in>set (filenames es). settled fs0 src fs dest (rel @ [f])) \<longrightarrow> fs' = fs \<and> log' = log"
      by blast
    have "sync_dir now src dest (src @ rel, filenames es) (fs, log) = Ok (fs', log')"
      using True ex r(1) rp by (simp add: sync_dir_def Let_def)
    then show ?thesis using r(2,3) by blast
  next
    case False
    then have ne: "rel \<noteq> []" using ddest by auto
    have "file_at fs (dest @ rel) = None" using comp sdir by (simp add: compatible_def)
    then have gn: "get fs (dest @ rel) = None" using False by (simp add: get_None_iff)
    have ndr: "normalised (dest @ rel)" using nd nr by (simp add: normalised_append)
    have nofile: "\<forall>k. file_at fs (take k (dest @ rel)) = None"
    proof
      fix k
      from take_append_cases [of k dest rel] show "file_at fs (take k (dest @ rel)) = None"
      proof
        assume "\<exists>j. take k (dest @ rel) = take j dest"
        then obtain j where j: "take k (dest @ rel) = take j dest" by blast
        have "dir_at fs (take j dest)" using dir_at_prefix [OF ddest] take_is_prefix by blast
        then show ?thesis using j file_dir_exclusive by metis
      next
        assume "\<exists>j. take k (dest @ rel) = dest @ take j rel"
        then obtain j where j: "take k (dest @ rel) = dest @ take j rel" by blast
        have "dir_at fs0 (src @ take j rel)" using dir_at_append_prefix [OF sdir] take_is_prefix by blast
        then show ?thesis using j comp by (simp add: compatible_def)
      qed
    qed
    from makedirs_spec [OF ndr gn nofile wf, of now]
    obtain fs1 where m:
      "makedirs now False fs (dest @ rel) = Ok fs1" "wf_node fs1"
      "\<forall>q. file_at fs1 q = file_at fs q"
      "\<forall>q. dir_at fs1 q = (dir_at fs q \<or> prefix q (dest @ rel))"
      "\<forall>a q. prefix a (dest @ rel) \<longrightarrow> get fs a \<noteq> None \<longrightarrow> \<not> prefix a q \<longrightarrow> \<not> prefix q a
                  \<longrightarrow> get fs1 q = get fs q"
      by blast
    have gd: "get fs dest \<noteq> None" using ddest by (auto simp: dir_at_get)
    have st1: "reached src dest fs0 FP (insert rel DP) fs1"
      unfolding reached_def
    proof (intro conjI allI impI)
      show "wf_node fs1" by (rule m(2))
      show "file_at fs1 (dest @ r) =
         (if r \<in> FP then newer (file_at fs0 (src @ r)) (file_at fs0 (dest @ r))
          else file_at fs0 (dest @ r))" for r
        using st m(3) unfolding reached_def by simp
      show "dir_at fs1 (dest @ r) = (dir_at fs0 (dest @ r) \<or> (\<exists>d\<in>insert rel DP. prefix r d))" for r
        using m(4) dirs [of r] by auto
      show "get fs1 q = get fs0 q" if "\<not> prefix dest q" "\<not> prefix q dest" for q
      proof -
        have "get fs1 q = get fs q" using m(5) gd that by (meson prefixI)
        then show ?thesis using st that unfolding reached_def by simp
      qed
    qed
    have d1: "dir_at fs1 (dest @ rel)" using m(4) by simp
    from sync_files_loop [OF b dp' nr st1 d1 files, of now "log @ [Makedirs ?dd]"]
    obtain fs' log' where r:
      "each (sync_file now (src @ rel) ?dd) (filenames es) (fs1, log @ [Makedirs ?dd]) = Ok (fs', log')"
      "reached src dest fs0 (FP \<union> (\<lambda>f. rel @ [f]) ` set (filenames es)) (insert rel DP) fs'"
      by blast
    have "sync_dir now src dest (src @ rel, filenames es) (fs, log) = Ok (fs', log')"
      using False ex r(1) rp m(1) ne by (simp add: sync_dir_def Let_def)
    then show ?thesis using r(2) False by blast
  qed
qed

section \<open>One pass: the loops\<close>

lemma sync_dirs_loop:
  assumes b: "base src dest fs0"
  shows "reached src dest fs0 FP DP fs \<Longrightarrow> DP \<subseteq> {r. dir_at fs0 (src @ r)} \<Longrightarrow> walked src fs0 ds \<Longrightarrow>
         \<exists>fs' log'.
           each (sync_dir now src dest) ds (fs, log) = Ok (fs', log')
           \<and> reached src dest fs0 (FP \<union> file_rels src ds) (DP \<union> dir_rels src ds) fs'
           \<and> ((\<forall>d\<in>dir_rels src ds. dir_at fs (dest @ d))
                \<and> (\<forall>r\<in>file_rels src ds. settled fs0 src fs dest r) \<longrightarrow> fs' = fs \<and> log' = log)"
proof (induction ds arbitrary: fs log FP DP)
  case Nil
  then show ?case by (simp add: file_rels_def dir_rels_def)
next
  case (Cons e ds)
  from Cons.prems(3) obtain rel t es where e: "e = (src @ rel, filenames es)"
    and g: "get fs0 (src @ rel) = Some (Dir t es)" by (auto simp: walked_def)
  have ro: "rel_of src e = rel" using e by (simp add: rel_of_def)
  from sync_dir_step [OF b Cons.prems(1,2) g, of now log]
  obtain fs1 log1 where s1:
    "sync_dir now src dest e (fs, log) = Ok (fs1, log1)"
    "reached src dest fs0 (FP \<union> (\<lambda>f. rel @ [f]) ` set (filenames es)) (insert rel DP) fs1"
    "dir_at fs (dest @ rel) \<and> (\<forall>f\<in>set (filenames es). settled fs0 src fs dest (rel @ [f]))
       \<longrightarrow> fs1 = fs \<and> log1 = log"
    using e by blast
  have dp1: "insert rel DP \<subseteq> {r. dir_at fs0 (src @ r)}"
    using Cons.prems(2) g by (simp add: dir_at_def)
  have w: "walked src fs0 ds" using Cons.prems(3) by (simp add: walked_def)
  from Cons.IH [OF s1(2) dp1 w, of log1]
  obtain fs' log' where s2:
    "each (sync_dir now src dest) ds (fs1, log1) = Ok (fs', log')"
    "reached src dest fs0 (FP \<union> (\<lambda>f. rel @ [f]) ` set (filenames es) \<union> file_rels src ds)
       (insert rel DP \<union> dir_rels src ds) fs'"
    "(\<forall>d\<in>dir_rels src ds. dir_at fs1 (dest @ d))
       \<and> (\<forall>r\<in>file_rels src ds. settled fs0 src fs1 dest r) \<longrightarrow> fs' = fs1 \<and> log' = log1"
    by blast
  have fr: "file_rels src (e # ds) = (\<lambda>f. rel @ [f]) ` set (filenames es) \<union> file_rels src ds"
    using ro e by (simp add: file_rels_def)
  have dr: "dir_rels src (e # ds) = insert rel (dir_rels src ds)"
    using ro by (simp add: dir_rels_def)
  have run: "each (sync_dir now src dest) (e # ds) (fs, log) = Ok (fs', log')"
    using s1(1) s2(1) by simp
  have re: "reached src dest fs0 (FP \<union> file_rels src (e # ds)) (DP \<union> dir_rels src (e # ds)) fs'"
    using s2(2) by (simp add: fr dr Un_assoc)
  have same: "(\<forall>d\<in>dir_rels src (e # ds). dir_at fs (dest @ d))
                \<and> (\<forall>r\<in>file_rels src (e # ds). settled fs0 src fs dest r) \<longrightarrow> fs' = fs \<and> log' = log"
  proof
    assume a: "(\<forall>d\<in>dir_rels src (e # ds). dir_at fs (dest @ d))
                \<and> (\<forall>r\<in>file_rels src (e # ds). settled fs0 src fs dest r)"
    then have "fs1 = fs \<and> log1 = log" using s1(3) by (simp add: fr dr)
    then show "fs' = fs \<and> log' = log" using s2(3) a by (simp add: fr dr)
  qed
  show ?case using run re same by blast
qed

lemma reached_start: "wf_node fs0 \<Longrightarrow> reached src dest fs0 {} {} fs0"
  by (simp add: reached_def)

lemma walked_walk:
  assumes "wf_node fs0" "get fs0 src = Some n"
  shows "walked src fs0 (walk src n)"
  unfolding walked_def
proof
  fix e assume e: "e \<in> set (walk src n)"
  have wn: "wf_node n" using wf_get [OF assms] by simp
  obtain d files where df: "e = (d, files)" by (cases e)
  from walk_sound [OF wn, of d files src] e df
  obtain rel t es where "d = src @ rel" "get n rel = Some (Dir t es)" "files = filenames es"
    by blast
  then show "\<exists>rel t es. e = (src @ rel, filenames es) \<and> get fs0 (src @ rel) = Some (Dir t es)"
    using df assms(2) by (auto simp: get_append)
qed

lemma dir_rels_walk:
  assumes "wf_node fs0" "get fs0 src = Some n"
  shows "(r \<in> dir_rels src (walk src n)) = dir_at fs0 (src @ r)"
proof
  assume "r \<in> dir_rels src (walk src n)"
  then obtain e where e: "e \<in> set (walk src n)" "r = rel_of src e" by (auto simp: dir_rels_def)
  from walked_walk [OF assms] e(1) obtain rel t es where
    "e = (src @ rel, filenames es)" "get fs0 (src @ rel) = Some (Dir t es)"
    by (auto simp: walked_def)
  then show "dir_at fs0 (src @ r)" using e(2) by (simp add: rel_of_def dir_at_def)
next
  assume "dir_at fs0 (src @ r)"
  then obtain t es where "get fs0 (src @ r) = Some (Dir t es)" by (auto simp: dir_at_get)
  then have "get n r = Some (Dir t es)" using assms(2) by (simp add: get_append)
  from walk_complete [OF this, of src] show "r \<in> dir_rels src (walk src n)"
    by (force simp: dir_rels_def rel_of_def)
qed

lemma file_rels_walk:
  assumes "get fs0 src = Some n" "is_Dir n" "file_at fs0 (src @ r) \<noteq> None"
  shows "r \<in> file_rels src (walk src n)"
proof -
  from assms(3) obtain c m where g: "get fs0 (src @ r) = Some (File c m)"
    by (auto simp: file_at_def split: option.splits node.splits)
  have ne: "r \<noteq> []"
  proof
    assume "r = []"
    then have "n = File c m" using g assms(1) by simp
    then show False using assms(2) by simp
  qed
  obtain t es where par: "get fs0 (src @ butlast r) = Some (Dir t es)"
    using get_butlast_Dir [OF ne g] by blast
  have "src @ r = (src @ butlast r) @ [last r]" using ne by simp
  then have "get fs0 ((src @ butlast r) @ [last r]) = Some (File c m)" using g by simp
  then have "map_of es (last r) = Some (File c m)"
    unfolding get_append [of fs0 "src @ butlast r"] using par by (simp split: option.splits)
  then have "(last r, File c m) \<in> set es" by (rule map_of_SomeD)
  then have f: "last r \<in> set (filenames es)" by (force simp: filenames_def)
  have "get n (butlast r) = Some (Dir t es)" using par assms(1) by (simp add: get_append)
  from walk_complete [OF this, of src]
  have e: "(src @ butlast r, filenames es) \<in> set (walk src n)" .
  have "rel_of src (src @ butlast r, filenames es) @ [last r] = r"
    using ne by (simp add: rel_of_def)
  then show ?thesis using e f unfolding file_rels_def by force
qed

section \<open>Both passes\<close>

lemma one_way_spec:
  assumes b: "base src dest fs0"
  shows "\<exists>fs' log'.
           one_way now src dest (fs0, log) = Ok (fs', log') \<and> wf_node fs'
           \<and> (\<forall>r. file_at fs' (dest @ r) = newer (file_at fs0 (src @ r)) (file_at fs0 (dest @ r)))
           \<and> (\<forall>r. dir_at fs' (dest @ r) = (dir_at fs0 (dest @ r) \<or> dir_at fs0 (src @ r)))
           \<and> (\<forall>q. \<not> prefix dest q \<longrightarrow> \<not> prefix q dest \<longrightarrow> get fs' q = get fs0 q)
           \<and> ((\<forall>r. dir_at fs0 (src @ r) \<longrightarrow> dir_at fs0 (dest @ r))
                \<and> (\<forall>r. settled fs0 src fs0 dest r) \<longrightarrow> fs' = fs0 \<and> log' = log)"
proof -
  have ns: "normalised src" and wf0: "wf_node fs0" and sd: "dir_at fs0 src"
    using b by (simp_all add: base_def)
  obtain t es where g: "get fs0 src = Some (Dir t es)" using sd by (auto simp: dir_at_get)
  let ?n = "Dir t es"
  have st: "stat fs0 src = Inr ?n" using g ns by (simp add: stat_normalised)
  have ow: "one_way now src dest (fs0, log) = each (sync_dir now src dest) (walk src ?n) (fs0, log)"
    using st by (simp add: one_way_def os_walk_def)
  from sync_dirs_loop [OF b reached_start [OF wf0] _ walked_walk [OF wf0 g], where now = now and log = log]
  obtain fs' log' where r:
    "each (sync_dir now src dest) (walk src ?n) (fs0, log) = Ok (fs', log')"
    "reached src dest fs0 (file_rels src (walk src ?n)) (dir_rels src (walk src ?n)) fs'"
    "(\<forall>d\<in>dir_rels src (walk src ?n). dir_at fs0 (dest @ d))
       \<and> (\<forall>r\<in>file_rels src (walk src ?n). settled fs0 src fs0 dest r) \<longrightarrow> fs' = fs0 \<and> log' = log"
    by auto
  have files: "file_at fs' (dest @ r) = newer (file_at fs0 (src @ r)) (file_at fs0 (dest @ r))" for r
  proof (cases "r \<in> file_rels src (walk src ?n)")
    case True
    then show ?thesis using r(2) unfolding reached_def by simp
  next
    case False
    then have "file_at fs0 (src @ r) = None" using file_rels_walk [OF g, of r] by fastforce
    then show ?thesis using False r(2) unfolding reached_def by simp
  qed
  have dirs: "dir_at fs' (dest @ r) = (dir_at fs0 (dest @ r) \<or> dir_at fs0 (src @ r))" for r
  proof -
    have "(\<exists>d\<in>dir_rels src (walk src ?n). prefix r d) = dir_at fs0 (src @ r)"
      using dir_rels_walk [OF wf0 g] dir_at_append_prefix [of fs0 src _ r] by blast
    then show ?thesis using r(2) unfolding reached_def by simp
  qed
  have frame: "\<forall>q. \<not> prefix dest q \<longrightarrow> \<not> prefix q dest \<longrightarrow> get fs' q = get fs0 q"
    using r(2) unfolding reached_def by simp
  have wf: "wf_node fs'" using r(2) unfolding reached_def by simp
  have same: "(\<forall>r. dir_at fs0 (src @ r) \<longrightarrow> dir_at fs0 (dest @ r))
                \<and> (\<forall>r. settled fs0 src fs0 dest r) \<longrightarrow> fs' = fs0 \<and> log' = log"
    using r(3) dir_rels_walk [OF wf0 g] by blast
  show ?thesis using ow r(1) wf files dirs frame same by simp
qed

lemma newer_back: "newer (newer s d) s = newer d s"
  by (cases s; cases d) auto

lemma newer_None_iff: "(newer s d = None) = (s = None \<and> d = None)"
  by (cases s; cases d) auto

lemma in_sync_sym: "in_sync fs src dest \<Longrightarrow> in_sync fs dest src"
  by (simp add: in_sync_def)

lemma in_sync_settled: "in_sync fs src dest \<Longrightarrow> settled fs src fs dest r"
proof -
  assume "in_sync fs src dest"
  then have "map_option snd (file_at fs (src @ r)) = map_option snd (file_at fs (dest @ r))"
    by (simp add: in_sync_def)
  then show ?thesis
    by (cases "file_at fs (src @ r)"; cases "file_at fs (dest @ r)") (auto simp: settled_def)
qed

lemma in_sync_base:
  assumes "normalised src" "normalised dest" "\<not> prefix src dest" "\<not> prefix dest src"
    "wf_node fs" "dir_at fs src" "in_sync fs src dest"
  shows "base src dest fs"
proof -
  have d: "dir_at fs (src @ r) = dir_at fs (dest @ r)" for r
    using assms(7) by (simp add: in_sync_def)
  have "dir_at fs (dest @ [])" using d [of "[]"] assms(6) by simp
  moreover have "compatible fs src fs dest"
    unfolding compatible_def
  proof (intro allI conjI impI)
    fix r
    show "\<not> dir_at fs (dest @ r)" if "file_at fs (src @ r) \<noteq> None"
      using that d [of r] file_dir_exclusive by blast
    show "file_at fs (dest @ r) = None" if "dir_at fs (src @ r)"
      using that d [of r] file_dir_exclusive by blast
  qed
  ultimately show ?thesis using assms by (simp add: base_def)
qed

lemma sync_noop:
  assumes b: "base src dest fs" and s: "in_sync fs src dest"
  shows "sync_folders_with_progress now src dest fs = Ok (fs, [])"
proof -
  have d: "dir_at fs (src @ r) = dir_at fs (dest @ r)" for r
    using s by (simp add: in_sync_def)
  from one_way_spec [OF b, of now "[]"] in_sync_settled [OF s] d
  have p1: "one_way now src dest (fs, []) = Ok (fs, [])" by auto
  have b': "base dest src fs"
    using in_sync_base [of dest src fs] b in_sync_sym [OF s] by (simp add: base_def)
  from one_way_spec [OF b', of now "[]"] in_sync_settled [OF in_sync_sym [OF s]] d
  have p2: "one_way now dest src (fs, []) = Ok (fs, [])" by auto
  show ?thesis using p1 p2 by (simp add: sync_folders_with_progress_def)
qed

lemma sync_spec:
  assumes b: "base src dest fs0"
  shows "\<exists>fs' log'.
           sync_folders_with_progress now src dest fs0 = Ok (fs', log') \<and> wf_node fs'
           \<and> (\<forall>r. file_at fs' (dest @ r) = newer (file_at fs0 (src @ r)) (file_at fs0 (dest @ r)))
           \<and> (\<forall>r. file_at fs' (src @ r) = newer (file_at fs0 (dest @ r)) (file_at fs0 (src @ r)))
           \<and> (\<forall>r. dir_at fs' (dest @ r) = (dir_at fs0 (dest @ r) \<or> dir_at fs0 (src @ r)))
           \<and> (\<forall>r. dir_at fs' (src @ r) = (dir_at fs0 (dest @ r) \<or> dir_at fs0 (src @ r)))
           \<and> (\<forall>q. \<not> prefix dest q \<longrightarrow> \<not> prefix q dest \<longrightarrow> \<not> prefix src q \<longrightarrow> \<not> prefix q src
                 \<longrightarrow> get fs' q = get fs0 q)"
proof -
  have ns: "normalised src" and nd: "normalised dest"
    and ap: "\<not> prefix src dest" "\<not> prefix dest src"
    and c0: "compatible fs0 src fs0 dest" and sd: "dir_at fs0 src"
    using b by (simp_all add: base_def)
  from one_way_spec [OF b, of now "[]"]
  obtain fs1 log1 where p1:
    "one_way now src dest (fs0, []) = Ok (fs1, log1)" "wf_node fs1"
    "\<forall>r. file_at fs1 (dest @ r) = newer (file_at fs0 (src @ r)) (file_at fs0 (dest @ r))"
    "\<forall>r. dir_at fs1 (dest @ r) = (dir_at fs0 (dest @ r) \<or> dir_at fs0 (src @ r))"
    "\<forall>q. \<not> prefix dest q \<longrightarrow> \<not> prefix q dest \<longrightarrow> get fs1 q = get fs0 q"
    by blast
  have src1: "get fs1 (src @ r) = get fs0 (src @ r)" for r
    using p1(5) apart [OF ap, of r] by simp
  then have fsrc1: "file_at fs1 (src @ r) = file_at fs0 (src @ r)"
    and dsrc1: "dir_at fs1 (src @ r) = dir_at fs0 (src @ r)" for r
    by (simp_all add: file_at_def dir_at_def)
  have comp1: "compatible fs1 dest fs1 src"
    unfolding compatible_def
  proof (intro allI conjI impI)
    fix r
    show "\<not> dir_at fs1 (src @ r)" if "file_at fs1 (dest @ r) \<noteq> None"
    proof
      assume d: "dir_at fs1 (src @ r)"
      then have d0: "dir_at fs0 (src @ r)" by (simp add: dsrc1)
      then have "file_at fs0 (dest @ r) = None" using c0 by (simp add: compatible_def)
      moreover have "file_at fs0 (src @ r) = None" using d0 file_dir_exclusive by blast
      ultimately show False using that p1(3) by simp
    qed
    show "file_at fs1 (src @ r) = None" if "dir_at fs1 (dest @ r)"
    proof (rule ccontr)
      assume f: "file_at fs1 (src @ r) \<noteq> None"
      then have f0: "file_at fs0 (src @ r) \<noteq> None" by (simp add: fsrc1)
      then have "\<not> dir_at fs0 (dest @ r)" using c0 by (simp add: compatible_def)
      moreover have "\<not> dir_at fs0 (src @ r)" using f0 file_dir_exclusive by blast
      ultimately show False using that p1(4) by simp
    qed
  qed
  have "dir_at fs1 (dest @ [])" using p1(4) sd by (metis append_Nil2)
  then have b1: "base dest src fs1"
    using ns nd ap p1(2) dsrc1 [of "[]"] sd comp1 by (simp add: base_def)
  from one_way_spec [OF b1, of now log1]
  obtain fs2 log2 where p2:
    "one_way now dest src (fs1, log1) = Ok (fs2, log2)" "wf_node fs2"
    "\<forall>r. file_at fs2 (src @ r) = newer (file_at fs1 (dest @ r)) (file_at fs1 (src @ r))"
    "\<forall>r. dir_at fs2 (src @ r) = (dir_at fs1 (src @ r) \<or> dir_at fs1 (dest @ r))"
    "\<forall>q. \<not> prefix src q \<longrightarrow> \<not> prefix q src \<longrightarrow> get fs2 q = get fs1 q"
    by blast
  have dest2: "get fs2 (dest @ r) = get fs1 (dest @ r)" for r
    using p2(5) apart [OF ap(2,1), of r] by simp
  then have fdest2: "file_at fs2 (dest @ r) = file_at fs1 (dest @ r)"
    and ddest2: "dir_at fs2 (dest @ r) = dir_at fs1 (dest @ r)" for r
    by (simp_all add: file_at_def dir_at_def)
  have run: "sync_folders_with_progress now src dest fs0 = Ok (fs2, log2)"
    using p1(1) p2(1) by (simp add: sync_folders_with_progress_def)
  have "\<forall>r. file_at fs2 (src @ r) = newer (file_at fs0 (dest @ r)) (file_at fs0 (src @ r))"
    using p2(3) p1(3) fsrc1 by (simp add: newer_back)
  moreover have "\<forall>r. dir_at fs2 (src @ r) = (dir_at fs0 (dest @ r) \<or> dir_at fs0 (src @ r))"
    using p2(4) p1(4) dsrc1 by auto
  moreover have "\<forall>q. \<not> prefix dest q \<longrightarrow> \<not> prefix q dest \<longrightarrow> \<not> prefix src q \<longrightarrow> \<not> prefix q src
                 \<longrightarrow> get fs2 q = get fs0 q"
    using p1(5) p2(5) by simp
  ultimately show ?thesis using run p2(2) fdest2 ddest2 p1(3,4) by auto
qed

section \<open>Clash-free trees\<close>

lemma agree_kinds:
  "agree a b \<Longrightarrow> get a r = Some x \<Longrightarrow> get b r = Some y \<Longrightarrow> is_Dir x = is_Dir y"
proof (induction r arbitrary: a b)
  case Nil
  then show ?case by (cases a; cases b) auto
next
  case (Cons z zs)
  from Cons.prems(2) obtain t es a' where a: "a = Dir t es" "map_of es z = Some a'" "get a' zs = Some x"
    by (cases a) (auto split: option.splits)
  from Cons.prems(3) obtain t' es' b' where b: "b = Dir t' es'" "map_of es' z = Some b'" "get b' zs = Some y"
    by (cases b) (auto split: option.splits)
  have "(z, a') \<in> set es" using a(2) by (rule map_of_SomeD)
  then have "agree a' b'" using Cons.prems(1) a(1) b(1,2) by fastforce
  then show ?case using Cons.IH a(3) b(3) by blast
qed

lemma clash_freeD:
  assumes "clash_free fs src dest"
  shows "\<exists>t es t' es'. get fs src = Some (Dir t es) \<and> get fs dest = Some (Dir t' es')
           \<and> agree (Dir t es) (Dir t' es')"
proof (cases "get fs src")
  case None
  then show ?thesis using assms by (simp add: clash_free_def)
next
  case (Some x)
  show ?thesis
  proof (cases x)
    case (File c m)
    then show ?thesis using assms Some by (simp add: clash_free_def)
  next
    case (Dir t es)
    show ?thesis
    proof (cases "get fs dest")
      case None
      then show ?thesis using assms Some Dir by (simp add: clash_free_def)
    next
      case y: (Some y)
      show ?thesis
      proof (cases y)
        case (File c m)
        then show ?thesis using assms Some Dir y by (simp add: clash_free_def)
      next
        case d: (Dir t' es')
        then show ?thesis using assms Some Dir y by (simp add: clash_free_def del: agree.simps)
      qed
    qed
  qed
qed

lemma reconcilable_base:
  assumes "reconcilable fs src dest"
  shows "base src dest fs"
proof -
  from assms have "clash_free fs src dest" by (simp add: reconcilable_def)
  from clash_freeD [OF this]
  obtain t es t' es' where g: "get fs src = Some (Dir t es)" "get fs dest = Some (Dir t' es')"
    and ag: "agree (Dir t es) (Dir t' es')"
    by blast
  have kinds: "is_Dir x = is_Dir y" if "get fs (src @ r) = Some x" "get fs (dest @ r) = Some y" for r x y
    using agree_kinds [OF ag, of r x y] that g by (simp add: get_append)
  have "compatible fs src fs dest"
    unfolding compatible_def
  proof (intro allI conjI impI)
    fix r
    show "\<not> dir_at fs (dest @ r)" if "file_at fs (src @ r) \<noteq> None"
    proof
      assume "dir_at fs (dest @ r)"
      then obtain t1 es1 where "get fs (dest @ r) = Some (Dir t1 es1)" by (auto simp: dir_at_get)
      moreover from that obtain c m where "get fs (src @ r) = Some (File c m)"
        by (auto simp: file_at_def split: option.splits node.splits)
      ultimately show False using kinds by fastforce
    qed
    show "file_at fs (dest @ r) = None" if "dir_at fs (src @ r)"
    proof (rule ccontr)
      assume "file_at fs (dest @ r) \<noteq> None"
      then obtain c m where "get fs (dest @ r) = Some (File c m)"
        by (auto simp: file_at_def split: option.splits node.splits)
      moreover from that obtain t1 es1 where "get fs (src @ r) = Some (Dir t1 es1)"
        by (auto simp: dir_at_get)
      ultimately show False using kinds by fastforce
    qed
  qed
  then show ?thesis using assms g by (simp add: base_def reconcilable_def dir_at_def)
qed

lemma newer_mtime_sym: "map_option snd (newer d s) = map_option snd (newer s d)"
  by (cases s; cases d) auto

lemma newer_differ: "map_option snd s \<noteq> map_option snd d \<Longrightarrow> newer d s = newer s d"
  by (cases s; cases d) auto

lemma sync_reaches_in_sync:
  assumes b: "base src dest fs0"
  shows "\<exists>fs' log'.
           sync_folders_with_progress now src dest fs0 = Ok (fs', log')
           \<and> base src dest fs' \<and> in_sync fs' src dest
           \<and> (\<forall>r. file_at fs' (dest @ r) = newer (file_at fs0 (src @ r)) (file_at fs0 (dest @ r)))
           \<and> (\<forall>r. file_at fs' (src @ r) = newer (file_at fs0 (dest @ r)) (file_at fs0 (src @ r)))
           \<and> (\<forall>r. dir_at fs' (dest @ r) = (dir_at fs0 (dest @ r) \<or> dir_at fs0 (src @ r)))"
proof -
  from sync_spec [OF b, of now]
  obtain fs' log' where s:
    "sync_folders_with_progress now src dest fs0 = Ok (fs', log')" "wf_node fs'"
    "\<forall>r. file_at fs' (dest @ r) = newer (file_at fs0 (src @ r)) (file_at fs0 (dest @ r))"
    "\<forall>r. file_at fs' (src @ r) = newer (file_at fs0 (dest @ r)) (file_at fs0 (src @ r))"
    "\<forall>r. dir_at fs' (dest @ r) = (dir_at fs0 (dest @ r) \<or> dir_at fs0 (src @ r))"
    "\<forall>r. dir_at fs' (src @ r) = (dir_at fs0 (dest @ r) \<or> dir_at fs0 (src @ r))"
    by blast
  have ins: "in_sync fs' src dest"
    unfolding in_sync_def using s(3,4,5,6) newer_mtime_sym by simp
  have "dir_at fs0 (src @ [])" using b by (simp add: base_def)
  then have "dir_at fs' (src @ [])" using s(6) by blast
  then have "base src dest fs'"
    using in_sync_base [OF _ _ _ _ s(2) _ ins] b by (simp add: base_def)
  then show ?thesis using s(1,3,4,5) ins by blast
qed

lemma sync_twice_noop:
  assumes "reconcilable fs src dest"
  shows "\<exists>fs1 log1.
           sync_folders_with_progress now src dest fs = Ok (fs1, log1)
           \<and> sync_folders_with_progress now' src dest fs1 = Ok (fs1, [])"
proof -
  from sync_reaches_in_sync [OF reconcilable_base [OF assms], of now]
  obtain fs1 log1 where s: "sync_folders_with_progress now src dest fs = Ok (fs1, log1)"
    "base src dest fs1" "in_sync fs1 src dest" by blast
  then show ?thesis using sync_noop [OF s(2,3)] by blast
qed

text \<open>
  C1, as the code has it.  For two clash-free trees \<open>a\<close> and \<open>b\<close>,
  \<open>sync_folders_with_progress(a, b)\<close> followed by \<open>sync_folders_with_progress(b, a)\<close>
  returns, and the second call changes nothing.  At every relative path each tree then
  holds the strictly newer of the two original files, or its own when the other is not
  strictly newer: both trees have a file wherever one of them had one, with the same
  modification time, and with the same content whenever the two original modification
  times differed or only one tree had the file.  With equal modification times each tree
  keeps its own content.  Both trees have the same directories.
\<close>

theorem reconcile_converges:
  assumes "reconcilable fs a b"
  shows "\<exists>fs1 log1.
           sync_folders_with_progress now a b fs = Ok (fs1, log1)
           \<and> sync_folders_with_progress now' b a fs1 = Ok (fs1, [])
           \<and> (\<forall>r. file_at fs1 (a @ r) = newer (file_at fs (b @ r)) (file_at fs (a @ r))
                 \<and> file_at fs1 (b @ r) = newer (file_at fs (a @ r)) (file_at fs (b @ r))
                 \<and> map_option snd (file_at fs1 (a @ r)) = map_option snd (file_at fs1 (b @ r))
                 \<and> (map_option snd (file_at fs (a @ r)) \<noteq> map_option snd (file_at fs (b @ r))
                      \<longrightarrow> file_at fs1 (a @ r) = file_at fs1 (b @ r))
                 \<and> dir_at fs1 (a @ r) = dir_at fs1 (b @ r))"
proof -
  from sync_reaches_in_sync [OF reconcilable_base [OF assms], of now]
  obtain fs1 log1 where s: "sync_folders_with_progress now a b fs = Ok (fs1, log1)"
    "base a b fs1" "in_sync fs1 a b"
    "\<forall>r. file_at fs1 (b @ r) = newer (file_at fs (a @ r)) (file_at fs (b @ r))"
    "\<forall>r. file_at fs1 (a @ r) = newer (file_at fs (b @ r)) (file_at fs (a @ r))"
    by blast
  have b': "base b a fs1"
    using in_sync_base [of b a fs1] s(2) in_sync_sym [OF s(3)] by (simp add: base_def)
  have second: "sync_folders_with_progress now' b a fs1 = Ok (fs1, [])"
    using sync_noop [OF b' in_sync_sym [OF s(3)]] .
  have "map_option snd (file_at fs1 (a @ r)) = map_option snd (file_at fs1 (b @ r))"
    and "dir_at fs1 (a @ r) = dir_at fs1 (b @ r)" for r
    using s(3) by (simp_all add: in_sync_def)
  moreover have "file_at fs1 (a @ r) = file_at fs1 (b @ r)"
    if "map_option snd (file_at fs (a @ r)) \<noteq> map_option snd (file_at fs (b @ r))" for r
    using s(4,5) newer_differ [OF that] by simp
  ultimately show ?thesis using s(1,4,5) second by blast
qed

section \<open>Idempotence, convergence, empty directories and failures\<close>

lemma sync_file_copies_iff:
  assumes "sync_file now sd dd f s = Ok s'"
  shows "if copy_condition (fst s) (join sd [f]) (join dd [f])
         then copy2 now (fst s) (join sd [f]) (join dd [f]) = Ok (fst s')
              \<and> snd s' = snd s @ [Copy2 (join sd [f]) (join dd [f])]
         else s' = s"
  using assms
  by (cases s)
     (auto simp: sync_file_def copy_condition_def copies_def Let_def
           split: sum.splits if_splits bool.splits outcome.splits)

text \<open>
  C2.  A file step that returns has called \<open>shutil.copy2\<close> exactly if the destination
  file did not exist or the source's modification time was strictly greater than the
  destination's, and has changed nothing otherwise.  Consequently, for two clash-free
  trees, \<open>sync_folders_with_progress(src, dest)\<close> returns, and running it again on the
  result makes no call that writes (no copy, no \<open>makedirs\<close>) and leaves the filesystem
  as it is.
\<close>

theorem reconcile_idempotent:
  "(sync_file now sd dd f s = Ok s' \<longrightarrow>
      (if copy_condition (fst s) (join sd [f]) (join dd [f])
       then copy2 now (fst s) (join sd [f]) (join dd [f]) = Ok (fst s')
            \<and> snd s' = snd s @ [Copy2 (join sd [f]) (join dd [f])]
       else s' = s))
   \<and> (reconcilable fs src dest \<longrightarrow>
        (\<exists>fs1 log1.
           sync_folders_with_progress now src dest fs = Ok (fs1, log1)
           \<and> sync_folders_with_progress now' src dest fs1 = Ok (fs1, [])))"
  using sync_file_copies_iff [of now sd dd f s s'] sync_twice_noop [of fs src dest now now']
  by blast

theorem reconcile_idempotent_witness:
  "sync_file 9 [''A'', ''notes''] [''B'', ''notes''] ''todo.txt'' (scenario, [])
     = Ok (put 9 scenario [''B'', ''notes'', ''todo.txt''] (File ''new'' 7),
           [Copy2 [''A'', ''notes'', ''todo.txt''] [''B'', ''notes'', ''todo.txt'']])
   \<and> copy_condition scenario [''A'', ''notes'', ''todo.txt''] [''B'', ''notes'', ''todo.txt'']
   \<and> reconcilable scenario [''A''] [''B'']
   \<and> (\<exists>fs1 log1.
           sync_folders_with_progress 9 [''A''] [''B''] scenario = Ok (fs1, log1)
           \<and> sync_folders_with_progress 10 [''A''] [''B''] fs1 = Ok (fs1, []))"
proof -
  have a: "sync_file 9 [''A'', ''notes''] [''B'', ''notes''] ''todo.txt'' (scenario, [])
     = Ok (put 9 scenario [''B'', ''notes'', ''todo.txt''] (File ''new'' 7),
           [Copy2 [''A'', ''notes'', ''todo.txt''] [''B'', ''notes'', ''todo.txt'']])"
    by code_simp
  have c: "copy_condition scenario [''A'', ''notes'', ''todo.txt''] [''B'', ''notes'', ''todo.txt'']"
    by code_simp
  have r: "reconcilable scenario [''A''] [''B'']" by code_simp
  show ?thesis
    using a c r reconcile_idempotent [of 9 "[''A'', ''notes'']" "[''B'', ''notes'']" "''todo.txt''"
        "(scenario, [])" _ scenario "[''A'']" "[''B'']" 10]
    by blast
qed

theorem reconcile_converges_witness:
  "reconcilable scenario [''A''] [''B'']
   \<and> (\<exists>fs1 log1.
         sync_folders_with_progress 9 [''A''] [''B''] scenario = Ok (fs1, log1)
         \<and> sync_folders_with_progress 10 [''B''] [''A''] fs1 = Ok (fs1, [])
         \<and> file_at fs1 ([''A''] @ [''notes'', ''todo.txt'']) = Some (''new'', 7)
         \<and> file_at fs1 ([''B''] @ [''notes'', ''todo.txt'']) = Some (''new'', 7)
         \<and> file_at fs1 ([''A''] @ [''photo.png'']) = Some (''img'', 4)
         \<and> file_at fs1 ([''B''] @ [''photo.png'']) = Some (''img'', 4))"
proof -
  have r: "reconcilable scenario [''A''] [''B'']" by code_simp
  from reconcile_converges [OF r, of 9 10]
  obtain fs1 log1 where s:
    "sync_folders_with_progress 9 [''A''] [''B''] scenario = Ok (fs1, log1)"
    "sync_folders_with_progress 10 [''B''] [''A''] fs1 = Ok (fs1, [])"
    "\<And>r. file_at fs1 ([''A''] @ r) = newer (file_at scenario ([''B''] @ r)) (file_at scenario ([''A''] @ r))"
    "\<And>r. file_at fs1 ([''B''] @ r) = newer (file_at scenario ([''A''] @ r)) (file_at scenario ([''B''] @ r))"
    by blast
  have "newer (file_at scenario ([''B''] @ [''notes'', ''todo.txt''])) (file_at scenario ([''A''] @ [''notes'', ''todo.txt''])) = Some (''new'', 7)"
    "newer (file_at scenario ([''A''] @ [''notes'', ''todo.txt''])) (file_at scenario ([''B''] @ [''notes'', ''todo.txt''])) = Some (''new'', 7)"
    "newer (file_at scenario ([''B''] @ [''photo.png''])) (file_at scenario ([''A''] @ [''photo.png''])) = Some (''img'', 4)"
    "newer (file_at scenario ([''A''] @ [''photo.png''])) (file_at scenario ([''B''] @ [''photo.png''])) = Some (''img'', 4)"
    by code_simp+
  then show ?thesis using r s(1,2) s(3) [of "[''notes'', ''todo.txt'']"] s(4) [of "[''notes'', ''todo.txt'']"]
      s(3) [of "[''photo.png'']"] s(4) [of "[''photo.png'']"]
    by (metis (no_types, lifting))
qed

text \<open>Both trees hold \<open>f\<close> with modification time 5 and different contents: after
  the two calls the contents still differ.\<close>

theorem reconcile_converges_counterexample:
  "sync_folders_with_progress 9 [''A''] [''B''] tie = Ok (tie, [])
   \<and> sync_folders_with_progress 10 [''B''] [''A''] tie = Ok (tie, [])
   \<and> file_at tie [''A'', ''f''] = Some (''a'', 5)
   \<and> file_at tie [''B'', ''f''] = Some (''b'', 5)"
  by code_simp

text \<open>
  C7, as the code has it.  For two clash-free trees, the pass from \<open>src\<close> to \<open>dest\<close>
  returns, and every directory below \<open>src\<close>, with or without files in it, is a directory
  below \<open>dest\<close> afterwards: line 103-104 calls \<open>os.makedirs\<close> for every directory of the
  walk whose counterpart does not exist.
\<close>

theorem reconcile_creates_directories:
  assumes "reconcilable fs src dest"
  shows "\<exists>fs' log'. one_way now src dest (fs, []) = Ok (fs', log')
           \<and> (\<forall>r. dir_at fs (src @ r) \<longrightarrow> dir_at fs' (dest @ r))"
  using one_way_spec [OF reconcilable_base [OF assms], of now "[]"] by blast

theorem reconcile_creates_directories_witness:
  "reconcilable with_empty_dir [''A''] [''B'']
   \<and> dir_at with_empty_dir ([''A''] @ [''empty''])
   \<and> (\<exists>fs' log'. one_way 9 [''A''] [''B''] (with_empty_dir, []) = Ok (fs', log')
          \<and> dir_at fs' ([''B''] @ [''empty'']))"
proof -
  have r: "reconcilable with_empty_dir [''A''] [''B'']" by code_simp
  have d: "dir_at with_empty_dir ([''A''] @ [''empty''])" by code_simp
  show ?thesis using r d reconcile_creates_directories [OF r, of 9] by blast
qed

text \<open>The walk of \<open>/A\<close> reports \<open>/A/empty\<close> with no files, \<open>/B/empty\<close> does not
  exist, and the call creates it.\<close>

theorem reconcile_creates_directories_counterexample:
  "os_walk with_empty_dir [''A''] = [([''A''], []), ([''A'', ''empty''], [])]
   \<and> \<not> path_exists with_empty_dir [''B'', ''empty'']
   \<and> sync_folders_with_progress 9 [''A''] [''B''] with_empty_dir
       = Ok (Dir 0 [(''A'', Dir 0 [(''empty'', Dir 0 [])]), (''B'', Dir 9 [(''empty'', Dir 9 [])])],
             [Makedirs [''B'', ''empty'']])
   \<and> isdir (fst (state_of (sync_folders_with_progress 9 [''A''] [''B''] with_empty_dir)))
        [''B'', ''empty'']"
  by code_simp

lemma each_raise:
  "each f xs s = Ok s1 \<Longrightarrow> f y s1 = Raise e s' \<Longrightarrow> each f (xs @ y # ys) s = Raise e s'"
  by (induction xs arbitrary: s) (auto split: outcome.splits)

text \<open>
  C6, as the code has it.  Nothing in \<open>sync_folders_with_progress\<close> catches an
  exception.  When the step of one file raises, the loop over the files of its
  directory raises the same exception and ends in the state of that moment; when the
  step of one directory of the walk raises, the whole call raises that exception with
  that state, and the remaining files and directories are not visited.
\<close>

theorem reconcile_failure_aborts:
  "(each (sync_file now src_dir dest_dir) fl1 s0 = Ok s1
      \<and> sync_file now src_dir dest_dir f s1 = Raise e s'
      \<longrightarrow> each (sync_file now src_dir dest_dir) (fl1 @ f # fl2) s0 = Raise e s')
   \<and> (os_walk fs src = ds1 @ d # ds2
      \<and> each (sync_dir now src dest) ds1 (fs, []) = Ok s
      \<and> sync_dir now src dest d s = Raise e s'
      \<longrightarrow> sync_folders_with_progress now src dest fs = Raise e s')"
proof (intro conjI impI)
  assume a: "each (sync_file now src_dir dest_dir) fl1 s0 = Ok s1
      \<and> sync_file now src_dir dest_dir f s1 = Raise e s'"
  show "each (sync_file now src_dir dest_dir) (fl1 @ f # fl2) s0 = Raise e s'"
    by (rule each_raise [OF conjunct1 [OF a] conjunct2 [OF a]])
next
  assume a: "os_walk fs src = ds1 @ d # ds2
      \<and> each (sync_dir now src dest) ds1 (fs, []) = Ok s
      \<and> sync_dir now src dest d s = Raise e s'"
  have w: "os_walk fs src = ds1 @ d # ds2" by (rule conjunct1 [OF a])
  have r: "each (sync_dir now src dest) (ds1 @ d # ds2) (fs, []) = Raise e s'"
    by (rule each_raise [OF conjunct1 [OF conjunct2 [OF a]] conjunct2 [OF conjunct2 [OF a]]])
  have "one_way now src dest (fs, []) = each (sync_dir now src dest) (os_walk fs src) (fs, [])"
    by (simp only: one_way_def fst_conv)
  then have "one_way now src dest (fs, []) = Raise e s'"
    by (simp only: w r)
  then show "sync_folders_with_progress now src dest fs = Raise e s'"
    by (simp only: sync_folders_with_progress_def outcome.case)
qed

theorem reconcile_failure_aborts_witness:
  "each (sync_file 9 [''A'', ''d''] [''B'', ''d'']) [] (blocked, []) = Ok (blocked, [])
   \<and> sync_file 9 [''A'', ''d''] [''B'', ''d''] ''f'' (blocked, []) = Raise NotADirectoryError (blocked, [])
   \<and> each (sync_file 9 [''A'', ''d''] [''B'', ''d'']) ([] @ ''f'' # []) (blocked, [])
       = Raise NotADirectoryError (blocked, [])
   \<and> os_walk blocked [''A''] = [([''A''], [])] @ ([''A'', ''d''], [''f'']) # [([''A'', ''e''], [''g''])]
   \<and> each (sync_dir 9 [''A''] [''B'']) [([''A''], [])] (blocked, []) = Ok (blocked, [])
   \<and> sync_dir 9 [''A''] [''B''] ([''A'', ''d''], [''f'']) (blocked, []) = Raise NotADirectoryError (blocked, [])
   \<and> sync_folders_with_progress 9 [''A''] [''B''] blocked = Raise NotADirectoryError (blocked, [])"
proof -
  have a: "each (sync_file 9 [''A'', ''d''] [''B'', ''d'']) [] (blocked, []) = Ok (blocked, [])"
    by simp
  have b: "sync_file 9 [''A'', ''d''] [''B'', ''d''] ''f'' (blocked, []) = Raise NotADirectoryError (blocked, [])"
    by code_simp
  have c: "os_walk blocked [''A''] = [([''A''], [])] @ ([''A'', ''d''], [''f'']) # [([''A'', ''e''], [''g''])]"
    by code_simp
  have d: "each (sync_dir 9 [''A''] [''B'']) [([''A''], [])] (blocked, []) = Ok (blocked, [])"
    by code_simp
  have e: "sync_dir 9 [''A''] [''B''] ([''A'', ''d''], [''f'']) (blocked, []) = Raise NotADirectoryError (blocked, [])"
    by code_simp
  show ?thesis
    using a b c d e
      reconcile_failure_aborts [of 9 "[''A'', ''d'']" "[''B'', ''d'']" "[]" "(blocked, [])" "(blocked, [])"
        "''f''" NotADirectoryError "(blocked, [])" "[]" blocked "[''A'']" "[([''A''], [])]"
        "([''A'', ''d''], [''f''])" "[([''A'', ''e''], [''g''])]" "[''B'']" "(blocked, [])"]
    by blast
qed

text \<open>The copy of \<open>/A/d/f\<close> fails because \<open>/B/d\<close> is a regular file; the call
  raises, and \<open>/A/e/g\<close>, which the walk would visit next, is never copied.\<close>

theorem reconcile_failure_aborts_counterexample:
  "sync_folders_with_progress 9 [''A''] [''B''] blocked = Raise NotADirectoryError (blocked, [])
   \<and> file_at blocked [''A'', ''e'', ''g''] = Some (''y'', 1)
   \<and> \<not> path_exists blocked [''B'', ''e'', ''g'']"
  by code_simp


section \<open>The failure boundary of the handler\<close>






section \<open>Writes below the mirror root\<close>

lemma within_refl: "dir_at fs M \<Longrightarrow> within M fs fs"
  by (simp add: within_def)

lemma within_trans: "within M a b \<Longrightarrow> within M b c \<Longrightarrow> within M a c"
  by (simp add: within_def)

lemma resolve_grows:
  "resolve fs acc x = Inr q \<Longrightarrow> no_parent x \<Longrightarrow>
     prefix acc q \<and> (names_entry x \<longrightarrow> q \<noteq> acc)"
proof (induction x arbitrary: acc)
  case Nil
  then show ?case by (simp add: names_entry_def)
next
  case (Cons c cs)
  from Cons.prems(1) obtain t es where d: "get fs acc = Some (Dir t es)"
    by (auto split: option.splits node.splits)
  have np: "no_parent cs" and c: "c \<noteq> ''..''" using Cons.prems(2) by (auto simp: no_parent_def)
  show ?case
  proof (cases "c = [] \<or> c = ''.''")
    case True
    then have r: "resolve fs acc cs = Inr q" using Cons.prems(1) d by auto
    have "names_entry (c # cs) \<Longrightarrow> names_entry cs"
      using True by (cases cs) (auto simp: names_entry_def)
    then show ?thesis using Cons.IH [OF r np] by blast
  next
    case False
    then have r: "resolve fs (acc @ [c]) cs = Inr q" using Cons.prems(1) d c by auto
    from Cons.IH [OF r np] have "prefix (acc @ [c]) q" by blast
    then show ?thesis by (auto simp: prefix_def)
  qed
qed

lemma resolve_below:
  assumes "normalised M" "no_parent x" "resolve fs [] (M @ x) = Inr q"
  shows "prefix M q \<and> (names_entry x \<longrightarrow> q \<noteq> M)"
proof -
  from assms(3) obtain r where r: "resolve fs [] M = Inr r" "resolve fs r x = Inr q"
    by (auto simp: resolve_append split: sum.splits)
  have "r = M" using resolve_normalised [OF assms(1) r(1)] by simp
  then show ?thesis using resolve_grows [OF r(2) assms(2)] by simp
qed

lemma resolved_parent:
  assumes "resolve fs [] p = Inr q" "q \<noteq> []"
  shows "dir_at fs (butlast q)"
proof (cases "get fs q")
  case None
  then show ?thesis using resolve_parent [OF assms(1)] by (auto simp: dir_at_get)
next
  case (Some n)
  then show ?thesis using get_butlast_Dir [OF assms(2), of fs "[]" n] by (auto simp: dir_at_get)
qed

lemma strictly_below: "prefix M q \<Longrightarrow> q \<noteq> M \<Longrightarrow> \<not> prefix q M \<and> q \<noteq> [] \<and> prefix M (butlast q)"
proof -
  assume p: "prefix M q" and n: "q \<noteq> M"
  then obtain zs where q: "q = M @ zs" "zs \<noteq> []" by (auto simp: prefix_def)
  then have "butlast q = M @ butlast zs" by (simp add: butlast_append)
  moreover have "\<not> prefix q M" using p n by (meson prefix_order.antisym)
  ultimately show ?thesis using q by auto
qed

lemma within_put:
  assumes "dir_at fs M" "prefix M q" "q \<noteq> M" "dir_at fs (butlast q)"
  shows "within M fs (put now fs q v)"
proof -
  from strictly_below [OF assms(2,3)]
  have s: "\<not> prefix q M" "q \<noteq> []" "prefix M (butlast q)" by simp_all
  obtain t es where par: "get fs (butlast q) = Some (Dir t es)"
    using assms(4) by (auto simp: dir_at_get)
  have "look (put now fs q v) r = look fs r" if "\<not> prefix M r" for r
  proof -
    have "\<not> prefix q r" using that assms(2) by (meson prefix_order.trans)
    moreover have "r \<noteq> butlast q" using that s(3) by auto
    ultimately show ?thesis by (simp add: look_put [OF s(2) par])
  qed
  moreover have "dir_at (put now fs q v) M"
    using s(1) assms(1) by (simp add: dir_at_put [OF s(2) assms(4)])
  ultimately show ?thesis by (simp add: within_def)
qed

lemma within_put_root:
  assumes "dir_at fs M" "is_Dir v"
  shows "within M fs (put now fs M v)"
proof (cases "M = []")
  case True
  then show ?thesis using assms(2) by (cases v) (auto simp: within_def dir_at_def)
next
  case False
  obtain t0 es0 where g: "get fs M = Some (Dir t0 es0)" using assms(1) by (auto simp: dir_at_get)
  obtain t es where par: "get fs (butlast M) = Some (Dir t es)"
    using get_butlast_Dir [OF False, of fs "[]"] g by auto
  have pd: "dir_at fs (butlast M)" using par by (simp add: dir_at_def)
  have "look (put now fs M v) r = look fs r" if "\<not> prefix M r" for r
  proof (cases "r = butlast M")
    case True
    have "look (put now fs M v) r = Some (D t)"
      using that True g by (simp add: look_put [OF False par])
    moreover have "look fs r = Some (D t)" using True par by (simp add: look_def)
    ultimately show ?thesis by simp
  next
    case False
    then show ?thesis using that by (simp add: look_put [OF \<open>M \<noteq> []\<close> par])
  qed
  moreover have "dir_at (put now fs M v) M"
  proof -
    have "dir_at (put now fs M v) M = dir_at v []"
      by (simp add: dir_at_put [OF False pd])
    then show ?thesis using assms(2) by (cases v) (simp_all add: dir_at_def)
  qed
  ultimately show ?thesis by (simp add: within_def)
qed

lemma within_del:
  assumes "dir_at fs M" "prefix M q" "q \<noteq> M"
  shows "within M fs (del now fs q)"
proof -
  from strictly_below [OF assms(2,3)]
  have s: "\<not> prefix q M" "q \<noteq> []" "prefix M (butlast q)" by simp_all
  have "look (del now fs q) r = look fs r" if "\<not> prefix M r" for r
  proof -
    have "\<not> prefix q r" using that assms(2) by (meson prefix_order.trans)
    moreover have "r \<noteq> butlast q" using that s(3) by auto
    ultimately show ?thesis by (simp add: look_del [OF s(2)])
  qed
  moreover have "dir_at (del now fs q) M"
  proof -
    have "look (del now fs q) M = look fs M \<or> look (del now fs q) M = Some (D now)"
      using s(1) by (simp add: look_del [OF s(2)])
    then show ?thesis using assms(1) by (auto simp: dir_at_look)
  qed
  ultimately show ?thesis by (simp add: within_def)
qed

lemma below_nonempty: "prefix M q \<Longrightarrow> q \<noteq> M \<Longrightarrow> q \<noteq> []"
  by auto

lemma within_mkdir:
  assumes "normalised M" "dir_at fs M" "no_parent x"
  shows "within M fs (state_of (mkdir now fs (M @ x)))"
proof (cases "resolve fs [] (M @ x)")
  case (Inl e)
  then show ?thesis using assms(2) by (simp add: mkdir_def within_refl)
next
  case (Inr q)
  show ?thesis
  proof (cases "get fs q = None")
    case True
    have p: "prefix M q" using resolve_below [OF assms(1,3) Inr] by simp
    have n: "q \<noteq> M" using True assms(2) by (auto simp: dir_at_get)
    have "dir_at fs (butlast q)" using resolved_parent [OF Inr below_nonempty [OF p n]] .
    then show ?thesis using Inr True within_put [OF assms(2) p n] by (simp add: mkdir_def)
  next
    case False
    then show ?thesis using Inr assms(2) by (simp add: mkdir_def within_refl)
  qed
qed

lemma within_mkdir_tail:
  assumes "normalised M" "dir_at fs M" "no_parent x"
  shows "within M fs (state_of (mkdir_tail now ok fs (M @ x)))"
  using within_mkdir [OF assms, of now]
  by (cases "mkdir now fs (M @ x)") (auto simp: mkdir_tail_def)

lemma within_makedirs:
  assumes nM: "normalised M"
  shows "dir_at fs M \<Longrightarrow> no_parent x \<Longrightarrow> within M fs (state_of (makedirs now ok fs (M @ x)))"
proof (induction x arbitrary: fs rule: rev_induct)
  case Nil
  show ?case
  proof (cases M rule: rev_cases)
    case Nil
    then show ?thesis using within_mkdir_tail [OF nM Nil.prems(1), of "[]" now ok]
      by (simp add: makedirs_def no_parent_def)
  next
    case (snoc h t)
    have "dir_at fs h" using dir_at_prefix [OF Nil.prems(1), of h] snoc by simp
    moreover have "normalised h" using nM snoc by (simp add: normalised_append)
    ultimately have "path_exists fs h" by (auto simp: path_exists_normalised dir_at_get)
    then show ?thesis using within_mkdir_tail [OF nM Nil.prems(1), of "[]" now ok] snoc
      by (simp add: makedirs_def no_parent_def)
  qed
next
  case (snoc c y)
  have npy: "no_parent y" using snoc.prems(2) by (simp add: no_parent_def)
  have tailstep: "within M fs (state_of (mkdir_tail now ok fs1 (M @ y @ [c])))"
    if "within M fs fs1" for fs1
  proof -
    have "dir_at fs1 M" using that by (simp add: within_def)
    from within_mkdir_tail [OF nM this snoc.prems(2), of now ok] that
    show ?thesis using within_trans by blast
  qed
  have inner: "within M fs (state_of (makedirs_rev now ok fs (rev (M @ y))))"
    using snoc.IH [OF snoc.prems(1) npy] by (simp add: makedirs_def)
  have unfold: "makedirs now ok fs (M @ y @ [c]) = makedirs_rev now ok fs (c # rev (M @ y))"
    by (simp add: makedirs_def)
  show ?case
  proof (cases "path_exists fs (M @ y)")
    case True
    then show ?thesis
      using tailstep [OF within_refl [OF snoc.prems(1)]] by (simp add: unfold)
  next
    case False
    show ?thesis
    proof (cases "makedirs_rev now ok fs (rev (M @ y))")
      case (Ok fs1)
      then have w: "within M fs fs1" using inner by simp
      show ?thesis using False Ok w tailstep [OF w] by (simp add: unfold)
    next
      case (Raise e fs1)
      then have w: "within M fs fs1" using inner by simp
      show ?thesis using False Raise w tailstep [OF w] by (simp add: unfold)
    qed
  qed
qed

lemma no_parent_append: "no_parent (x @ y) = (no_parent x \<and> no_parent y)"
  by (auto simp: no_parent_def)

lemma within_copy2:
  assumes "normalised M" "dir_at fs M" "no_parent x" "no_parent (basename src)"
  shows "within M fs (state_of (copy2 now fs src (M @ x)))"
proof -
  let ?x' = "if isdir fs (M @ x) then x @ basename src else x"
  let ?dst' = "if isdir fs (M @ x) then join (M @ x) (basename src) else M @ x"
  have d: "?dst' = M @ ?x'" by (simp add: join_def)
  have np: "no_parent ?x'" using assms(3,4) by (simp add: no_parent_append)
  have w: "within M fs (put now fs q (File c m))"
    if "resolve fs [] (M @ ?x') = Inr q" "\<forall>t es. get fs q \<noteq> Some (Dir t es)" for q c m
  proof -
    have p: "prefix M q" using resolve_below [OF assms(1) np that(1)] by simp
    have n: "q \<noteq> M" using that(2) assms(2) by (auto simp: dir_at_get)
    have "dir_at fs (butlast q)" using resolved_parent [OF that(1) below_nonempty [OF p n]] .
    then show ?thesis using within_put [OF assms(2) p n] by simp
  qed
  have "copy2 now fs src (M @ x) =
     (if samefile fs src ?dst' then Raise SameFileError fs
      else
        (case stat fs src of
           Inl e \<Rightarrow> Raise e fs
         | Inr (Dir t es) \<Rightarrow> Raise IsADirectoryError fs
         | Inr (File c m) \<Rightarrow>
             (case resolve fs [] ?dst' of
                Inl e \<Rightarrow> Raise e fs
              | Inr q \<Rightarrow>
                  (case get fs q of
                     Some (Dir t es) \<Rightarrow> Raise IsADirectoryError fs
                   | _ \<Rightarrow> Ok (put now fs q (File c m))))))"
    by (simp add: copy2_def Let_def)
  then show ?thesis
    unfolding d using w within_refl [OF assms(2)]
    by (auto split: sum.splits node.splits option.splits)
qed

lemma within_remove:
  assumes "normalised M" "dir_at fs M" "no_parent x"
  shows "within M fs (state_of (remove now fs (M @ x)))"
proof (cases "resolve fs [] (M @ x)")
  case (Inl e)
  then show ?thesis using assms(2) by (simp add: remove_def within_refl)
next
  case (Inr q)
  have p: "prefix M q" using resolve_below [OF assms(1,3) Inr] by simp
  show ?thesis
  proof (cases "get fs q")
    case None
    then show ?thesis using Inr assms(2) by (simp add: remove_def within_refl)
  next
    case (Some n)
    show ?thesis
    proof (cases n)
      case (File c m)
      then have "q \<noteq> M" using Some assms(2) by (auto simp: dir_at_get)
      then show ?thesis using Inr Some File within_del [OF assms(2) p] by (simp add: remove_def)
    next
      case (Dir t es)
      then show ?thesis using Inr Some assms(2) by (simp add: remove_def within_refl)
    qed
  qed
qed

lemma names_entry_append: "x \<noteq> [] \<Longrightarrow> names_entry (M @ x) = names_entry x"
  by (simp add: names_entry_def)

lemma within_rmtree:
  assumes "normalised M" "dir_at fs M" "no_parent x" "x \<noteq> []"
  shows "within M fs (state_of (rmtree now fs (M @ x)))"
proof (cases "resolve fs [] (M @ x)")
  case (Inl e)
  then show ?thesis using assms(2) by (simp add: rmtree_def within_refl)
next
  case (Inr q)
  have p: "prefix M q" and strict: "names_entry x \<longrightarrow> q \<noteq> M"
    using resolve_below [OF assms(1,3) Inr] by simp_all
  show ?thesis
  proof (cases "get fs q")
    case None
    then show ?thesis using Inr assms(2) by (simp add: rmtree_def within_refl)
  next
    case (Some n)
    show ?thesis
    proof (cases n)
      case (File c m)
      then show ?thesis using Inr Some assms(2) by (simp add: rmtree_def within_refl)
    next
      case (Dir t es)
      show ?thesis
      proof (cases "q = [] \<or> \<not> names_entry (M @ x)")
        case True
        have "within M fs (put now fs q (Dir t' []))" for t'
        proof (cases "q = M")
          case True
          then show ?thesis using within_put_root [OF assms(2)] by simp
        next
          case False
          have "dir_at fs (butlast q)" using resolved_parent [OF Inr below_nonempty [OF p False]] .
          then show ?thesis using within_put [OF assms(2) p False] by simp
        qed
        then show ?thesis using Inr Some Dir True by (simp add: rmtree_def)
      next
        case False
        then have "q \<noteq> M" using strict names_entry_append [OF assms(4)] by simp
        then show ?thesis using Inr Some Dir False within_del [OF assms(2) p]
          by (simp add: rmtree_def)
      qed
    qed
  qed
qed

lemma dir_at_del:
  assumes "q \<noteq> []"
  shows "dir_at (del now fs q) r = (dir_at fs r \<and> (get fs q = None \<or> \<not> prefix q r))"
proof (cases "get fs q")
  case None
  then show ?thesis by (simp add: dir_at_look look_del [OF assms])
next
  case (Some n)
  obtain t es where par: "get fs (butlast q) = Some (Dir t es)"
    using get_butlast_Dir [OF assms, of fs "[]" n] Some by auto
  show ?thesis
  proof (cases "r = butlast q")
    case True
    have "look (del now fs q) r = Some (D now)"
      using True Some butlast_not_prefix [OF assms] by (simp add: look_del [OF assms])
    then have "dir_at (del now fs q) r" by (simp add: dir_at_look)
    moreover have "dir_at fs r" using True par by (simp add: dir_at_def)
    ultimately show ?thesis using True butlast_not_prefix [OF assms] by simp
  next
    case False
    then show ?thesis using Some by (simp add: dir_at_look look_del [OF assms])
  qed
qed

lemma butlast_prefix_mono: "prefix s (butlast d) \<Longrightarrow> prefix s d"
  by (metis prefix_order.trans prefixeq_butlast)

lemma within_rename:
  assumes nM: "normalised M" and dM: "dir_at fs M"
    and x: "no_parent x" "x \<noteq> []" and y: "no_parent y" "y \<noteq> []"
  shows "within M fs (state_of (rename now fs (M @ x) (M @ y)))"
proof (cases "resolve fs [] (M @ x)")
  case (Inl e)
  then show ?thesis using dM by (simp add: rename_def within_refl)
next
  case s: (Inr s)
  show ?thesis
  proof (cases "get fs s")
    case None
    then show ?thesis using s dM by (simp add: rename_def within_refl)
  next
    case n: (Some n)
    show ?thesis
    proof (cases "resolve fs [] (M @ y)")
      case (Inl e)
      then show ?thesis using s n dM by (simp add: rename_def within_refl)
    next
      case d: (Inr d)
      show ?thesis
      proof (cases "\<not> names_entry (M @ x) \<or> \<not> names_entry (M @ y) \<or> s = d \<or> prefix s d")
        case True
        then show ?thesis using s n d dM by (auto simp: rename_def within_refl)
      next
        case False
        have ps: "prefix M s" and sM: "s \<noteq> M"
          using resolve_below [OF nM x(1) s] False names_entry_append [OF x(2)] by simp_all
        have pd: "prefix M d" and dnM: "d \<noteq> M"
          using resolve_below [OF nM y(1) d] False names_entry_append [OF y(2)] by simp_all
        have dne: "d \<noteq> []" and sne: "s \<noteq> []"
          using below_nonempty pd dnM ps sM by blast+
        have pard: "dir_at fs (butlast d)" using resolved_parent [OF d dne] .
        have nps: "\<not> prefix s (butlast d)" using False butlast_prefix_mono by blast
        have one: "within M fs (put now (del now fs s) d n)"
        proof -
          have w1: "within M fs (del now fs s)" using within_del [OF dM ps sM] .
          then have dM1: "dir_at (del now fs s) M" by (simp add: within_def)
          have "dir_at (del now fs s) (butlast d)" using pard nps by (simp add: dir_at_del [OF sne])
          from within_put [OF dM1 pd dnM this] w1 show ?thesis using within_trans by blast
        qed
        have two: "within M fs (put now (del now (del now fs d) s) d n)"
        proof -
          have w1: "within M fs (del now fs d)" using within_del [OF dM pd dnM] .
          then have dM1: "dir_at (del now fs d) M" by (simp add: within_def)
          have w2: "within M (del now fs d) (del now (del now fs d) s)"
            using within_del [OF dM1 ps sM] .
          then have dM2: "dir_at (del now (del now fs d) s) M" by (simp add: within_def)
          have "dir_at (del now fs d) (butlast d)"
            using pard butlast_not_prefix [OF dne] by (simp add: dir_at_del [OF dne])
          then have "dir_at (del now (del now fs d) s) (butlast d)"
            using nps by (simp add: dir_at_del [OF sne])
          from within_put [OF dM2 pd dnM this] w1 w2 show ?thesis using within_trans by blast
        qed
        show ?thesis using s n d False one two dM
          by (auto simp: rename_def within_refl split: option.splits node.splits)
      qed
    qed
  qed
qed

lemma within_copytree:
  assumes nM: "normalised M" and dM: "dir_at fs M" and y: "no_parent y"
  shows "within M fs (state_of (copytree now fs src (M @ y)))"
proof (cases "stat fs src")
  case (Inl e)
  then show ?thesis using dM by (simp add: copytree_def within_refl)
next
  case (Inr n)
  show ?thesis
  proof (cases n)
    case (File c m)
    then show ?thesis using Inr dM by (simp add: copytree_def within_refl)
  next
    case (Dir t es)
    have w1: "within M fs (state_of (makedirs now False fs (M @ y)))"
      using within_makedirs [OF nM dM y] .
    show ?thesis
    proof (cases "makedirs now False fs (M @ y)")
      case (Raise e fs1)
      then show ?thesis using Inr Dir w1 by (simp add: copytree_def)
    next
      case (Ok fs1)
      then have w: "within M fs fs1" using w1 by simp
      then have dM1: "dir_at fs1 M" by (simp add: within_def)
      show ?thesis
      proof (cases "resolve fs1 [] (M @ y)")
        case (Inl e)
        then show ?thesis using Inr Dir Ok w by (simp add: copytree_def)
      next
        case d: (Inr d)
        have pd: "prefix M d" using resolve_below [OF nM y d] by simp
        have "within M fs1 (put now fs1 d (Dir t es))"
        proof (cases "d = M")
          case True
          then show ?thesis using within_put_root [OF dM1] by simp
        next
          case False
          have "dir_at fs1 (butlast d)" using resolved_parent [OF d below_nonempty [OF pd False]] .
          then show ?thesis using within_put [OF dM1 pd False] by simp
        qed
        then show ?thesis using Inr Dir Ok d w within_trans by (auto simp: copytree_def)
      qed
    qed
  qed
qed

lemma within_move:
  assumes nM: "normalised M" and dM: "dir_at fs M"
    and x: "no_parent x" "x \<noteq> []" and y: "no_parent y" "y \<noteq> []"
  shows "within M fs (state_of (move now fs (M @ x) (M @ y)))"
proof (cases "isdir fs (M @ y) \<and> samefile fs (M @ x) (M @ y)")
  case True
  then show ?thesis using within_rename [OF nM dM x y] by (simp add: move_def)
next
  case False
  let ?y' = "if isdir fs (M @ y) then y @ basename (M @ x) else y"
  let ?real = "if isdir fs (M @ y) then join (M @ y) (basename (M @ x)) else M @ y"
  have real: "?real = M @ ?y'" by (simp add: join_def)
  have "set (basename (M @ x)) \<subseteq> set x" using x(2) by (auto simp: basename_def)
  then have npb: "no_parent (basename (M @ x))" using x(1) by (auto simp: no_parent_def)
  then have y': "no_parent ?y'" "?y' \<noteq> []" using y by (simp_all add: no_parent_append)
  have wr: "within M fs (state_of (rename now fs (M @ x) (M @ ?y')))"
    using within_rename [OF nM dM x y'] .
  have wt: "within M fs (state_of (case copytree now fs (M @ x) (M @ ?y') of
                         Raise e' fs' \<Rightarrow> Raise e' fs'
                       | Ok fs' \<Rightarrow> rmtree now fs' (M @ x)))"
  proof (cases "copytree now fs (M @ x) (M @ ?y')")
    case (Raise e fs1)
    then show ?thesis using within_copytree [OF nM dM y'(1), of now "M @ x"] by simp
  next
    case (Ok fs1)
    then have w: "within M fs fs1" using within_copytree [OF nM dM y'(1), of now "M @ x"] by simp
    then have "dir_at fs1 M" by (simp add: within_def)
    from within_rmtree [OF nM this x, of now] w show ?thesis using Ok within_trans by auto
  qed
  have wc: "within M fs (state_of (case copy2 now fs (M @ x) (M @ ?y') of
                      Raise e' fs' \<Rightarrow> Raise e' fs'
                    | Ok fs' \<Rightarrow> remove now fs' (M @ x)))"
  proof (cases "copy2 now fs (M @ x) (M @ ?y')")
    case (Raise e fs1)
    then show ?thesis using within_copy2 [OF nM dM y'(1) npb, of now] by simp
  next
    case (Ok fs1)
    then have w: "within M fs fs1" using within_copy2 [OF nM dM y'(1) npb, of now] by simp
    then have "dir_at fs1 M" by (simp add: within_def)
    from within_remove [OF nM this x(1), of now] w show ?thesis using Ok within_trans by auto
  qed
  have "move now fs (M @ x) (M @ y) =
      (if isdir fs (M @ y) \<and> path_exists fs ?real then Raise ShutilError fs
         else
           (case rename now fs (M @ x) ?real of
              Ok fs' \<Rightarrow> Ok fs'
            | Raise e fs0 \<Rightarrow>
                (if isdir fs (M @ x) then
                   (if prefix (abspath (M @ x)) (abspath (M @ y)) then Raise ShutilError fs
                    else
                      (case copytree now fs (M @ x) ?real of
                         Raise e' fs' \<Rightarrow> Raise e' fs'
                       | Ok fs' \<Rightarrow> rmtree now fs' (M @ x)))
                 else
                   (case copy2 now fs (M @ x) ?real of
                      Raise e' fs' \<Rightarrow> Raise e' fs'
                    | Ok fs' \<Rightarrow> remove now fs' (M @ x)))))"
    using False by (simp add: move_def Let_def)
  then show ?thesis
    unfolding real using wr wt wc within_refl [OF dM]
    by (cases "rename now fs (M @ x) (M @ ?y')") auto
qed

lemma fst_state_printing: "fst (state_of (printing msg r)) = state_of r"
  by (cases r) (simp_all add: printing_def)

lemma fst_state_on_any_event:
  "fst (state_of (on_any_event now self ev fs)) = fst (state_of (on_any_event_body now self ev fs))"
  by (cases "on_any_event_body now self ev fs") (auto simp: on_any_event_def split: prod.splits)

lemma normalised_no_parent: "normalised x \<Longrightarrow> no_parent x"
  by (induction x) (auto simp: normalised_def no_parent_def)

lemma mapped_shape:
  assumes "normalised W" "prefix W p" "normalised p"
  shows "\<exists>x. join M (relpath p W) = M @ x \<and> no_parent x \<and> x \<noteq> []"
proof -
  from assms(2) obtain rel where p: "p = W @ rel" by (auto simp: prefix_def)
  then have nr: "normalised rel" using assms(3) by (simp add: normalised_append)
  have "relpath p W = (if rel = [] then [''.''] else rel)"
    unfolding p by (rule relpath_entry [OF assms(1) nr])
  then show ?thesis using normalised_no_parent [OF nr]
    by (cases "rel = []") (auto simp: join_def no_parent_def)
qed

lemma on_any_event_body_within:
  assumes nW: "normalised (self_src_path self)" and nM: "normalised (self_dest_path self)"
    and dM: "dir_at fs (self_dest_path self)"
    and src: "prefix (self_src_path self) (src_path ev)" "normalised (src_path ev)"
    and dst: "event_type ev = Moved \<longrightarrow>
                prefix (self_src_path self) (dest_path ev) \<and> normalised (dest_path ev)"
  shows "within (self_dest_path self) fs (fst (state_of (on_any_event_body now self ev fs)))"
proof -
  let ?W = "self_src_path self" and ?M = "self_dest_path self"
  from mapped_shape [OF nW src, of ?M] obtain x where
    x: "join ?M (relpath (src_path ev) ?W) = ?M @ x" "no_parent x" "x \<noteq> []" by blast
  have npb: "no_parent (basename (src_path ev))"
    using normalised_no_parent [OF src(2)]
    by (cases "src_path ev = []") (auto simp: basename_def no_parent_def)
  show ?thesis
  proof (cases "event_type ev")
    case Created
    then show ?thesis
      using within_makedirs [OF nM dM x(2), of now True] within_copy2 [OF nM dM x(2) npb, of now]
      by (simp add: on_any_event_body_def Let_def x(1) fst_state_printing)
  next
    case Modified
    then show ?thesis
      using within_copy2 [OF nM dM x(2) npb, of now] within_refl [OF dM]
      by (simp add: on_any_event_body_def Let_def x(1) fst_state_printing)
  next
    case Deleted
    then show ?thesis
      using within_rmtree [OF nM dM x(2,3), of now] within_remove [OF nM dM x(2), of now]
        within_refl [OF dM]
      by (simp add: on_any_event_body_def Let_def x(1) fst_state_printing)
  next
    case Moved
    then have "prefix ?W (dest_path ev)" "normalised (dest_path ev)" using dst by simp_all
    from mapped_shape [OF nW this, of ?M] obtain y where
      y: "join ?M (relpath (dest_path ev) ?W) = ?M @ y" "no_parent y" "y \<noteq> []" by blast
    show ?thesis
      using Moved within_move [OF nM dM x(2,3) y(2,3), of now]
      by (simp add: on_any_event_body_def Let_def x(1) y(1) fst_state_printing)
  next
    case Other
    then show ?thesis using within_refl [OF dM] by (simp add: on_any_event_body_def Let_def)
  qed
qed

text \<open>
  C9.  For an event of the watched root (its paths lie at or below \<open>self.src_path\<close>,
  as the observer delivers them) and an existing mirror root, whatever the handler
  does, every path that is not at or below \<open>self.dest_path\<close> shows afterwards what it
  showed before: the same file content and modification time, the same directory, or
  nothing.  When neither root lies inside the other this holds for every path at or
  below the watched root.
\<close>

theorem handler_writes_below_mirror_root:
  assumes "normalised (self_src_path self)" "normalised (self_dest_path self)"
    and "isdir fs (self_dest_path self)"
    and "prefix (self_src_path self) (src_path ev)" "normalised (src_path ev)"
    and "event_type ev = Moved \<longrightarrow>
           prefix (self_src_path self) (dest_path ev) \<and> normalised (dest_path ev)"
  shows "(\<forall>q. \<not> prefix (self_dest_path self) q \<longrightarrow>
              look (fst (state_of (on_any_event now self ev fs))) q = look fs q)
         \<and> (\<not> prefix (self_src_path self) (self_dest_path self)
              \<and> \<not> prefix (self_dest_path self) (self_src_path self) \<longrightarrow>
            (\<forall>x. look (fst (state_of (on_any_event now self ev fs))) (self_src_path self @ x)
                   = look fs (self_src_path self @ x)))"
proof -
  have dM: "dir_at fs (self_dest_path self)"
    using assms(2,3) by (simp add: isdir_normalised dir_at_get)
  from on_any_event_body_within [OF assms(1,2) dM assms(4,5,6), of now]
  have fr: "\<forall>q. \<not> prefix (self_dest_path self) q \<longrightarrow>
              look (fst (state_of (on_any_event now self ev fs))) q = look fs q"
    by (simp add: within_def fst_state_on_any_event)
  moreover have "look (fst (state_of (on_any_event now self ev fs))) (self_src_path self @ x)
                   = look fs (self_src_path self @ x)"
    if "\<not> prefix (self_src_path self) (self_dest_path self)"
      "\<not> prefix (self_dest_path self) (self_src_path self)" for x
    using fr apart(1) [OF that] by blast
  ultimately show ?thesis by blast
qed

theorem handler_writes_below_mirror_root_witness:
  "look (fst (state_of (on_any_event 9 mirror
       \<lparr>event_type = Moved, src_path = [''A'', ''notes''], dest_path = [''A'', ''memos'']\<rparr> scenario)))
     ([''A''] @ [''notes'', ''todo.txt''])
   = look scenario ([''A''] @ [''notes'', ''todo.txt''])
   \<and> look (fst (state_of (on_any_event 9 mirror
       \<lparr>event_type = Moved, src_path = [''A'', ''notes''], dest_path = [''A'', ''memos'']\<rparr> scenario)))
     [''B'', ''memos'', ''todo.txt'']
   = Some (F ''old'' 3)"
proof -
  let ?ev = "\<lparr>event_type = Moved, src_path = [''A'', ''notes''], dest_path = [''A'', ''memos'']\<rparr>"
  have h: "normalised (self_src_path mirror)" "normalised (self_dest_path mirror)"
    "isdir scenario (self_dest_path mirror)"
    "prefix (self_src_path mirror) (src_path ?ev)" "normalised (src_path ?ev)"
    "event_type ?ev = Moved \<longrightarrow>
           prefix (self_src_path mirror) (dest_path ?ev) \<and> normalised (dest_path ?ev)"
    "\<not> prefix (self_src_path mirror) (self_dest_path mirror)
              \<and> \<not> prefix (self_dest_path mirror) (self_src_path mirror)"
    "self_src_path mirror = [''A'']"
    by code_simp+
  have moved: "look (fst (state_of (on_any_event 9 mirror ?ev scenario))) [''B'', ''memos'', ''todo.txt'']
     = Some (F ''old'' 3)"
    by code_simp
  from handler_writes_below_mirror_root [OF h(1-6), of 9] h(7)
  have "look (fst (state_of (on_any_event 9 mirror ?ev scenario))) (self_src_path mirror @ [''notes'', ''todo.txt''])
          = look scenario (self_src_path mirror @ [''notes'', ''todo.txt''])"
    by blast
  then show ?thesis using moved h(8) by simp
qed

section \<open>Moved events\<close>














end
